theory Spec2Isabelle
  imports Main "HOL-Library.Word" "HOL-Library.Signed_Division"
begin

section \<open>MinHeapTimer: an indexed binary min-heap of timer nodes\<close>

text \<open>
  A shallow embedding of \<^verbatim>\<open>MinHeapTimer.hpp\<close>.

  \<^item> \<^verbatim>\<open>TimerNode<T>\<close> is a record. \<^verbatim>\<open>int id\<close> is a 32-bit word (read as signed with
    \<open>sint\<close>), \<^verbatim>\<open>uint64_t expire_ms\<close> and \<^verbatim>\<open>timing_time_ms\<close> are 64-bit words whose
    order is the unsigned one. The callback \<^verbatim>\<open>fb\<close> is an opaque observer: the field says
    whether the \<^verbatim>\<open>std::function\<close> holds a callable, and a call appends the pointer it
    is given and the node as it is at that moment to the trace \<open>fired\<close>. Callbacks that write to the node or call
    back into the engine are outside the model.
  \<^item> The vector \<^verbatim>\<open>_heap\<close> and the map \<^verbatim>\<open>_map\<close> hold pointers to the same node objects,
    so nodes live in an explicit store from addresses to nodes; \<^verbatim>\<open>new TNode()\<close> takes the
    next unused address and \<^verbatim>\<open>delete\<close> removes the address from the store.
  \<^item> Heap positions are C++ \<^verbatim>\<open>int\<close>s that never go negative: the only subtraction,
    \<^verbatim>\<open>(pos - 1) / 2\<close> at \<^verbatim>\<open>pos = 0\<close>, is \<^verbatim>\<open>-1 / 2 = 0\<close> by truncation, which is also what
    natural-number arithmetic gives, and \<^verbatim>\<open>(int) _heap.size() - 1\<close> on an empty vector
    only meets comparisons that come out the same for \<open>-1\<close> and \<open>0\<close>. Positions
    are natural numbers; the guard \<^verbatim>\<open>left < 0\<close> of \<^verbatim>\<open>_shiftDown\<close> (overflow of
    \<^verbatim>\<open>2 * idx + 1\<close>) has nothing left to catch.
  \<^item> \<^verbatim>\<open>TimeUtils::CurrentTime_ms()\<close> comes from a header outside the repository's
    sources. The clock is a sequence of readings, \<open>clock s k\<close> being the value returned
    by the \<open>k\<close>-th call, and the state counts the calls made so far.
  \<^item> The \<^verbatim>\<open>do ... while\<close> loop of \<^verbatim>\<open>ExpireTimer\<close> may run forever, so it takes fuel:
    \<open>None\<close> says that the loop has not returned within that many iterations.
  \<^item> An out-of-range \<^verbatim>\<open>_heap[i]\<close> or a dangling pointer is undefined behaviour in C++;
    the model reads \<open>heap s ! i\<close> and \<open>the (store s p)\<close> there, and the theorems
    about such reads carry the invariant that keeps them in range.
  \<^item> The model is sequential: one thread makes the calls. The mutex \<^verbatim>\<open>mtx_\<close> is the
    field \<open>mtx_locked\<close>, which says whether it is held. \<^verbatim>\<open>DelTimer\<close> takes it with
    \<^verbatim>\<open>try_lock\<close>, goes on without it when that fails, and does not release it on the
    early return for an unknown identifier. \<^verbatim>\<open>AddTimer\<close>, \<^verbatim>\<open>ExpireTimer\<close> and
    \<^verbatim>\<open>GetTimerNode\<close> take it with a scoped \<^verbatim>\<open>std::unique_lock\<close>, which waits until the
    mutex is free and gives it back when the function returns: with one thread, a held
    mutex is never given back, and the wait never ends.
\<close>

type_synonym addr = nat

record 'a TimerNode =
  idx :: nat
  id_node :: "32 word"
  expire_ms :: "64 word"
  timing_time_ms :: "64 word"
  data :: 'a
  fb :: bool
  is_loop :: bool

record 'a MinHeapTimer =
  heap :: "addr list"
  map_ids :: "32 word \<Rightarrow> addr option"
  count :: "32 word"
  store :: "addr \<Rightarrow> 'a TimerNode option"
  next_addr :: addr
  clock :: "nat \<Rightarrow> 64 word"
  reads :: nat
  fired :: "(addr \<times> 'a TimerNode) list"
  mtx_locked :: bool

text \<open>The constructor clears both containers; \<^verbatim>\<open>_count\<close> is a static initialised to 0.\<close>

definition MinHeapTimer_init :: "(nat \<Rightarrow> 64 word) \<Rightarrow> 'a MinHeapTimer" where
  "MinHeapTimer_init clk =
     \<lparr>heap = [], map_ids = Map.empty, count = 0, store = Map.empty, next_addr = 0,
      clock = clk, reads = 0, fired = [], mtx_locked = False\<rparr>"

definition CurrentTime_ms :: "'a MinHeapTimer \<Rightarrow> 64 word \<times> 'a MinHeapTimer" where
  "CurrentTime_ms s = (clock s (reads s), s\<lparr>reads := Suc (reads s)\<rparr>)"

text \<open>\<^verbatim>\<open>return ++_count;\<close>\<close>

definition Count :: "'a MinHeapTimer \<Rightarrow> 32 word \<times> 'a MinHeapTimer" where
  "Count s = (count s + 1, s\<lparr>count := count s + 1\<rparr>)"

definition node_at :: "'a MinHeapTimer \<Rightarrow> addr \<Rightarrow> 'a TimerNode" where
  "node_at s p = the (store s p)"

text \<open>\<^verbatim>\<open>_heap[lhs]->expire_ms < _heap[rhs]->expire_ms\<close>\<close>

definition lessThan_t :: "nat \<Rightarrow> nat \<Rightarrow> 'a MinHeapTimer \<Rightarrow> bool" where
  "lessThan_t lhs rhs s =
     (expire_ms (node_at s (heap s ! lhs)) < expire_ms (node_at s (heap s ! rhs)))"

text \<open>\<^verbatim>\<open>std::swap(_heap[i], _heap[j])\<close> and \<^verbatim>\<open>_heap[i]->idx = i\<close>.\<close>

definition swap_heap :: "nat \<Rightarrow> nat \<Rightarrow> 'a MinHeapTimer \<Rightarrow> 'a MinHeapTimer" where
  "swap_heap i j s = s\<lparr>heap := (heap s)[i := heap s ! j, j := heap s ! i]\<rparr>"

definition set_idx :: "nat \<Rightarrow> 'a MinHeapTimer \<Rightarrow> 'a MinHeapTimer" where
  "set_idx i s =
     s\<lparr>store := (store s)(heap s ! i := map_option (\<lambda>n. n\<lparr>idx := i\<rparr>) (store s (heap s ! i)))\<rparr>"

function shiftUp :: "nat \<Rightarrow> 'a MinHeapTimer \<Rightarrow> 'a MinHeapTimer" where
  "shiftUp pos s =
     (let parent = (pos - 1) div 2 in
      if parent = pos \<or> \<not> lessThan_t pos parent s then s
      else shiftUp parent (set_idx pos (set_idx parent (swap_heap parent pos s))))"
  by pat_completeness auto
termination
  by (relation "measure (\<lambda>(pos, s). pos)") auto

text \<open>
  The loop of \<^verbatim>\<open>_shiftDown\<close>, with \<open>last_i\<close> standing for
  \<^verbatim>\<open>last = _heap.size() - 1\<close>: the slot at \<open>last_i\<close> is not part of the heap that is repaired. The result is the final \<open>idx\<close> and the state.
\<close>

function shiftDown_loop :: "nat \<Rightarrow> nat \<Rightarrow> 'a MinHeapTimer \<Rightarrow> nat \<times> 'a MinHeapTimer" where
  "shiftDown_loop last_i i s =
     (let left = 2 * i + 1 in
      if left \<ge> last_i then (i, s)
      else
        let right = left + 1;
            min_i = (if right < last_i \<and> \<not> lessThan_t left right s then right else left)
        in if \<not> lessThan_t min_i i s then (i, s)
           else shiftDown_loop last_i min_i (set_idx min_i (set_idx i (swap_heap i min_i s))))"
  by pat_completeness auto
termination
  by (relation "measure (\<lambda>(last_i, i, s). last_i - i)") auto

definition shiftDown :: "nat \<Rightarrow> 'a MinHeapTimer \<Rightarrow> bool \<times> 'a MinHeapTimer" where
  "shiftDown pos s =
     (let last_i = length (heap s) - 1;
          (i, s') = shiftDown_loop last_i pos s
      in (i > pos, s'))"

text \<open>
  \<^verbatim>\<open>_removeNode(node)\<close>: the node at \<open>node->idx\<close> changes places with the last one, the
  displaced node is sifted down or else up, the last slot is popped and \<open>node->id\<close> is
  erased from the map.
\<close>

definition removeNode :: "addr \<Rightarrow> 'a MinHeapTimer \<Rightarrow> 'a MinHeapTimer" where
  "removeNode p s =
     (let last_i = length (heap s) - 1;
          i = idx (node_at s p);
          s1 = (if i \<noteq> last_i then
                  (let (moved, s') = shiftDown i (set_idx i (swap_heap i last_i s))
                   in if \<not> moved then shiftUp i s' else s')
                else s)
      in s1\<lparr>heap := butlast (heap s1),
            map_ids := (map_ids s1)(id_node (node_at s1 p) := None)\<rparr>)"

text \<open>\<^verbatim>\<open>_delNode(node)\<close>: \<^verbatim>\<open>_removeNode(node); delete node;\<close>\<close>

definition delNode :: "addr \<Rightarrow> 'a MinHeapTimer \<Rightarrow> 'a MinHeapTimer" where
  "delNode p s = (let s1 = removeNode p s in s1\<lparr>store := (store s1)(p := None)\<rparr>)"

text \<open>\<^verbatim>\<open>std::map::insert\<close> leaves the map alone when the key is already there.\<close>

definition map_insert :: "32 word \<Rightarrow> addr \<Rightarrow> (32 word \<Rightarrow> addr option) \<Rightarrow> (32 word \<Rightarrow> addr option)" where
  "map_insert k p m = (case m k of None \<Rightarrow> m(k \<mapsto> p) | Some q \<Rightarrow> m)"

text \<open>
  \<^verbatim>\<open>_addTimer(timing_time_ms, data, fb, is_loop)\<close>. The sum is taken in \<^verbatim>\<open>uint64_t\<close>,
  stored in an \<^verbatim>\<open>int64_t\<close> and converted back on assignment to \<^verbatim>\<open>expire_ms\<close>: the 64 bits
  are those of the wrapped sum.
\<close>

definition addTimer ::
  "64 word \<Rightarrow> 'a \<Rightarrow> bool \<Rightarrow> bool \<Rightarrow> 'a MinHeapTimer \<Rightarrow> 32 word \<times> 'a MinHeapTimer" where
  "addTimer timing d f l s =
     (let (t, s1) = CurrentTime_ms s;
          timeout_ms = t + timing;
          p = next_addr s1;
          (i, s2) = Count s1;
          node = \<lparr>idx = length (heap s2), id_node = i, expire_ms = timeout_ms,
                  timing_time_ms = timing, data = d, fb = f, is_loop = l\<rparr>;
          s3 = s2\<lparr>store := (store s2)(p \<mapsto> node), next_addr := Suc p\<rparr>;
          s4 = s3\<lparr>heap := heap s3 @ [p]\<rparr>;
          s5 = shiftUp (length (heap s4) - 1) s4
      in (i, s5\<lparr>map_ids := map_insert i p (map_ids s5)\<rparr>))"

text \<open>
  \<^verbatim>\<open>_addTimer(TNode *node)\<close>, the reinsertion of a repeating node: a new clock reading,
  a new identifier from \<^verbatim>\<open>Count()\<close>, and the node is pushed and mapped again.
\<close>

definition addTimer_node :: "addr \<Rightarrow> 'a MinHeapTimer \<Rightarrow> 32 word \<times> 'a MinHeapTimer" where
  "addTimer_node p s =
     (let (t, s1) = CurrentTime_ms s;
          timeout_ms = t + timing_time_ms (node_at s1 p);
          (i, s2) = Count s1;
          s3 = s2\<lparr>store := (store s2)(p := map_option
                   (\<lambda>n. n\<lparr>id_node := i, expire_ms := timeout_ms, idx := length (heap s2)\<rparr>)
                   (store s2 p))\<rparr>;
          s4 = s3\<lparr>heap := heap s3 @ [p]\<rparr>;
          s5 = shiftUp (length (heap s4) - 1) s4
      in (i, s5\<lparr>map_ids := map_insert i p (map_ids s5)\<rparr>))"

text \<open>
  \<^verbatim>\<open>std::unique_lock<std::mutex> lock(mtx_)\<close> at the head of \<^verbatim>\<open>AddTimer\<close>,
  \<^verbatim>\<open>ExpireTimer\<close> and \<^verbatim>\<open>GetTimerNode\<close>: on a free mutex the function goes on, holds
  the mutex while it runs and has released it when it returns, so that \<open>mtx_locked\<close> is
  after the call what it was before; on a held mutex the constructor waits, and
  \<open>None\<close> says that it does not return. \<open>AddTimer\<close> and \<open>ExpireTimer\<close> below are what
  the two functions do once the lock has let them in; a call from a client is
  \<open>unique_lock\<close> followed by them, as in \<open>apply_op\<close>.
\<close>

definition unique_lock :: "'a MinHeapTimer \<Rightarrow> 'a MinHeapTimer option" where
  "unique_lock s = (if mtx_locked s then None else Some s)"

text \<open>
  \<^verbatim>\<open>mtx_.try_lock()\<close> takes the mutex when it is free and says whether it did;
  \<^verbatim>\<open>mtx_.unlock()\<close> frees it. (\<^verbatim>\<open>try_lock\<close> on a mutex that the calling thread holds
  itself is undefined in C++; the model gives the answer of the usual implementations,
  false.)
\<close>

definition try_lock :: "'a MinHeapTimer \<Rightarrow> bool \<times> 'a MinHeapTimer" where
  "try_lock s = (\<not> mtx_locked s, s\<lparr>mtx_locked := True\<rparr>)"

definition unlock :: "'a MinHeapTimer \<Rightarrow> 'a MinHeapTimer" where
  "unlock s = s\<lparr>mtx_locked := False\<rparr>"

text \<open>
  \<^verbatim>\<open>AddTimer(timing_time_ms, data, fb, is_loop)\<close>; the two other overloads pass a zeroed
  payload (and \<^verbatim>\<open>is_loop = false\<close>) to the same \<^verbatim>\<open>_addTimer\<close>.
\<close>

definition AddTimer ::
  "64 word \<Rightarrow> 'a \<Rightarrow> bool \<Rightarrow> bool \<Rightarrow> 'a MinHeapTimer \<Rightarrow> 32 word \<times> 'a MinHeapTimer" where
  "AddTimer timing d f l s = addTimer timing d f l s"

text \<open>
  \<^verbatim>\<open>DelTimer(id)\<close>: \<^verbatim>\<open>try_lock\<close>, the lookup, and for an identifier that is not in
  the map \<^verbatim>\<open>return false\<close> at once, with the mutex as \<^verbatim>\<open>try_lock\<close> left it: held.
  Only the path that finds the node reaches \<^verbatim>\<open>if (is_lock) mtx_.unlock()\<close>.
\<close>

definition DelTimer :: "32 word \<Rightarrow> 'a MinHeapTimer \<Rightarrow> bool \<times> 'a MinHeapTimer" where
  "DelTimer i s =
     (let (is_lock, s1) = try_lock s in
      case map_ids s1 i of
        None \<Rightarrow> (False, s1)
      | Some p \<Rightarrow>
          (let s2 = delNode p s1
           in (True, if is_lock then unlock s2 else s2)))"

text \<open>
  One pass through the body of the \<^verbatim>\<open>do ... while\<close> loop for a root that is due: the
  callback, then \<^verbatim>\<open>_delNode\<close> for a one-shot node and \<^verbatim>\<open>_removeNode\<close> followed by
  \<^verbatim>\<open>_addTimer(node)\<close> for a repeating one.
\<close>

definition call_fb :: "addr \<Rightarrow> 'a MinHeapTimer \<Rightarrow> 'a MinHeapTimer" where
  "call_fb p s = (if fb (node_at s p) then s\<lparr>fired := fired s @ [(p, node_at s p)]\<rparr> else s)"

definition expire_node :: "addr \<Rightarrow> 'a MinHeapTimer \<Rightarrow> 'a MinHeapTimer" where
  "expire_node p s =
     (let s1 = call_fb p s
      in if \<not> is_loop (node_at s1 p) then delNode p s1
         else snd (addTimer_node p (removeNode p s1)))"

fun expire_loop :: "nat \<Rightarrow> 64 word \<Rightarrow> 'a MinHeapTimer \<Rightarrow> 'a MinHeapTimer option" where
  "expire_loop 0 now s = None"
| "expire_loop (Suc n) now s =
     (let p = hd (heap s) in
      if now < expire_ms (node_at s p) then Some s
      else
        let s1 = expire_node p s
        in if heap s1 = [] then Some s1 else expire_loop n now s1)"

definition ExpireTimer :: "nat \<Rightarrow> 'a MinHeapTimer \<Rightarrow> 'a MinHeapTimer option" where
  "ExpireTimer fuel s =
     (if heap s = [] then Some s
      else let (now, s1) = CurrentTime_ms s in expire_loop fuel now s1)"


section \<open>MinHeapTimerLoop: the self-driving subclass\<close>

text \<open>
  The subclass adds two atomics to the engine. \<^verbatim>\<open>TIMER_LOOP_TIME\<close> is a macro of the
  missing header and is a parameter of the constructor here. \<^verbatim>\<open>min_timing_time_ms\<close> is
  a \<^verbatim>\<open>std::atomic_int\<close>: in \<^verbatim>\<open>min_timing_time_ms.load() > timing_time_ms\<close> the \<^verbatim>\<open>int\<close> is
  converted to \<^verbatim>\<open>uint64_t\<close> (sign extension, \<open>scast\<close>) and the comparison is unsigned;
  \<^verbatim>\<open>store(timing_time_ms)\<close> keeps the low 32 bits (\<open>ucast\<close>).
\<close>

record 'a MinHeapTimerLoop =
  engine :: "'a MinHeapTimer"
  is_running :: bool
  min_timing_time_ms :: "32 word"

definition MinHeapTimerLoop_init :: "32 word \<Rightarrow> (nat \<Rightarrow> 64 word) \<Rightarrow> 'a MinHeapTimerLoop" where
  "MinHeapTimerLoop_init TIMER_LOOP_TIME clk =
     \<lparr>engine = MinHeapTimer_init clk, is_running = False, min_timing_time_ms = TIMER_LOOP_TIME\<rparr>"

text \<open>
  The override of \<^verbatim>\<open>_addTimer\<close>: the update of the minimum, around a body that repeats the
  one of the base class line by line.
\<close>

definition addTimer_Loop ::
  "64 word \<Rightarrow> 'a \<Rightarrow> bool \<Rightarrow> bool \<Rightarrow> 'a MinHeapTimerLoop \<Rightarrow> 32 word \<times> 'a MinHeapTimerLoop" where
  "addTimer_Loop timing d f l L =
     (let L1 = (if (scast (min_timing_time_ms L) :: 64 word) > timing
                then L\<lparr>min_timing_time_ms := ucast timing\<rparr> else L);
          (i, e) = addTimer timing d f l (engine L1)
      in (i, L1\<lparr>engine := e\<rparr>))"

text \<open>
  One pass of the thread's \<^verbatim>\<open>while (is_running.load())\<close> loop: \<^verbatim>\<open>ExpireTimer()\<close>
  (the wait for the mutex, then the sweep), then
  \<^verbatim>\<open>sleep_for(milliseconds(min_timing_time_ms.load() / 10))\<close>. The division is the
  truncating one of \<^verbatim>\<open>int\<close>. The result is the number of milliseconds handed to
  \<^verbatim>\<open>sleep_for\<close> and the state.
\<close>

definition sleep_ms :: "'a MinHeapTimerLoop \<Rightarrow> int" where
  "sleep_ms L = sint (min_timing_time_ms L) sdiv 10"

definition loop_body :: "nat \<Rightarrow> 'a MinHeapTimerLoop \<Rightarrow> (int \<times> 'a MinHeapTimerLoop) option" where
  "loop_body fuel L =
     (case unique_lock (engine L) of
        None \<Rightarrow> None
      | Some e0 \<Rightarrow>
          (case ExpireTimer fuel e0 of
             None \<Rightarrow> None
           | Some e \<Rightarrow> Some (sleep_ms L, L\<lparr>engine := e\<rparr>)))"

section \<open>Sequences of calls\<close>

text \<open>
  A client is a sequence of calls of the public operations. A sweep carries the fuel
  of its loop; \<open>mints\<close> bounds the number of identifiers a call draws from \<^verbatim>\<open>Count()\<close>.
  A call of \<^verbatim>\<open>AddTimer\<close> or \<^verbatim>\<open>ExpireTimer\<close> begins with the \<^verbatim>\<open>unique_lock\<close>: on a
  mutex that an earlier \<^verbatim>\<open>DelTimer\<close> has left held it does not return, and neither does
  the sequence.
\<close>

datatype 'a timer_op = Schedule "64 word" 'a bool bool | Cancel "32 word" | Sweep nat

fun apply_op :: "'a timer_op \<Rightarrow> 'a MinHeapTimer \<Rightarrow> 'a MinHeapTimer option" where
  "apply_op (Schedule timing d f l) s =
     (case unique_lock s of
        None \<Rightarrow> None
      | Some s1 \<Rightarrow> Some (snd (AddTimer timing d f l s1)))"
| "apply_op (Cancel i) s = Some (snd (DelTimer i s))"
| "apply_op (Sweep fuel) s =
     (case unique_lock s of
        None \<Rightarrow> None
      | Some s1 \<Rightarrow> ExpireTimer fuel s1)"

fun run :: "'a timer_op list \<Rightarrow> 'a MinHeapTimer \<Rightarrow> 'a MinHeapTimer option" where
  "run [] s = Some s"
| "run (x # xs) s = (case apply_op x s of None \<Rightarrow> None | Some s' \<Rightarrow> run xs s')"

fun mints :: "'a timer_op \<Rightarrow> nat" where
  "mints (Schedule timing d f l) = 1"
| "mints (Cancel i) = 0"
| "mints (Sweep fuel) = fuel"

section \<open>Invariants\<close>

text \<open>
  The heap order is a property of the list of keys (the \<^verbatim>\<open>expire_ms\<close> of the nodes in
  heap order). While a node sifts, the order holds except around one position; the three
  weakened forms below are the loop invariants of \<^verbatim>\<open>_shiftUp\<close> and \<^verbatim>\<open>_shiftDown\<close> and the
  state in which \<^verbatim>\<open>_removeNode\<close> calls them. They speak about the first \<open>n\<close> slots only,
  because \<^verbatim>\<open>_removeNode\<close> repairs the heap while the node to be removed sits in the last
  slot.
\<close>

definition parent_of :: "nat \<Rightarrow> nat" where
  "parent_of j = (j - 1) div 2"

definition heap_below :: "('k::linorder) list \<Rightarrow> nat \<Rightarrow> bool" where
  "heap_below ks n \<longleftrightarrow> (\<forall>j. 0 < j \<and> j < n \<longrightarrow> ks ! (parent_of j) \<le> ks ! j)"

definition grand_ok :: "('k::linorder) list \<Rightarrow> nat \<Rightarrow> nat \<Rightarrow> bool" where
  "grand_ok ks n i \<longleftrightarrow>
     (\<forall>j. 0 < j \<and> j < n \<and> parent_of j = i \<and> 0 < i \<longrightarrow> ks ! (parent_of i) \<le> ks ! j)"

definition both_inv :: "('k::linorder) list \<Rightarrow> nat \<Rightarrow> nat \<Rightarrow> bool" where
  "both_inv ks n i \<longleftrightarrow>
     (\<forall>j. 0 < j \<and> j < n \<and> j \<noteq> i \<and> parent_of j \<noteq> i \<longrightarrow> ks ! (parent_of j) \<le> ks ! j) \<and>
     grand_ok ks n i"

definition up_inv :: "('k::linorder) list \<Rightarrow> nat \<Rightarrow> nat \<Rightarrow> bool" where
  "up_inv ks n i \<longleftrightarrow>
     (\<forall>j. 0 < j \<and> j < n \<and> j \<noteq> i \<longrightarrow> ks ! (parent_of j) \<le> ks ! j) \<and> grand_ok ks n i"

definition down_inv :: "('k::linorder) list \<Rightarrow> nat \<Rightarrow> nat \<Rightarrow> bool" where
  "down_inv ks n i \<longleftrightarrow>
     (\<forall>j. 0 < j \<and> j < n \<and> parent_of j \<noteq> i \<longrightarrow> ks ! (parent_of j) \<le> ks ! j) \<and>
     grand_ok ks n i"

definition keys :: "'a MinHeapTimer \<Rightarrow> 64 word list" where
  "keys s = map (\<lambda>p. expire_ms (node_at s p)) (heap s)"

text \<open>
  Sifting permutes the first \<open>n\<close> slots of the heap and rewrites \<open>idx\<close> fields of nodes
  in these slots; it touches nothing else.
\<close>

definition strip_idx :: "'a TimerNode \<Rightarrow> 'a TimerNode" where
  "strip_idx nd = nd\<lparr>idx := 0\<rparr>"

definition sift_rel :: "nat \<Rightarrow> 'a MinHeapTimer \<Rightarrow> 'a MinHeapTimer \<Rightarrow> bool" where
  "sift_rel n s s' \<longleftrightarrow>
     length (heap s') = length (heap s) \<and>
     set (take n (heap s')) = set (take n (heap s)) \<and>
     drop n (heap s') = drop n (heap s) \<and>
     (\<forall>p. map_option strip_idx (store s' p) = map_option strip_idx (store s p)) \<and>
     (\<forall>p. p \<notin> set (take n (heap s)) \<longrightarrow> store s' p = store s p) \<and>
     map_ids s' = map_ids s \<and> count s' = count s \<and> next_addr s' = next_addr s \<and>
     clock s' = clock s \<and> reads s' = reads s \<and> fired s' = fired s"

text \<open>
  The first \<open>n\<close> slots hold pairwise different live nodes, each recording its own
  position.
\<close>

definition idx_ok :: "nat \<Rightarrow> 'a MinHeapTimer \<Rightarrow> bool" where
  "idx_ok n s \<longleftrightarrow>
     n \<le> length (heap s) \<and> distinct (heap s) \<and>
     (\<forall>i < length (heap s). store s (heap s ! i) \<noteq> None) \<and>
     (\<forall>i < n. idx (node_at s (heap s ! i)) = i)"



definition min_child :: "nat \<Rightarrow> nat \<Rightarrow> 'a MinHeapTimer \<Rightarrow> nat" where
  "min_child n i s =
     (if 2 * i + 2 < n \<and> \<not> lessThan_t (2 * i + 1) (2 * i + 2) s then 2 * i + 2 else 2 * i + 1)"

text \<open>
  The invariant of the engine. \<open>heap_inv\<close>: the heap order, and every node records its
  position. \<open>map_inv\<close>: the lookup table maps exactly the identifiers of the nodes in
  the heap, each to its node. \<open>alloc_inv\<close> and \<open>ids_inv\<close> say that the allocator and
  the counter are ahead of everything in use.
\<close>

definition heap_inv :: "'a MinHeapTimer \<Rightarrow> bool" where
  "heap_inv s \<longleftrightarrow> idx_ok (length (heap s)) s \<and> heap_below (keys s) (length (heap s))"

definition map_inv :: "'a MinHeapTimer \<Rightarrow> bool" where
  "map_inv s \<longleftrightarrow>
     (\<forall>i p. map_ids s i = Some p \<longleftrightarrow> p \<in> set (heap s) \<and> id_node (node_at s p) = i)"

definition alloc_inv :: "'a MinHeapTimer \<Rightarrow> bool" where
  "alloc_inv s \<longleftrightarrow> (\<forall>p \<in> set (heap s). p < next_addr s)"

definition ids_inv :: "'a MinHeapTimer \<Rightarrow> bool" where
  "ids_inv s \<longleftrightarrow> (\<forall>p \<in> set (heap s). sint (id_node (node_at s p)) \<le> sint (count s))"

definition timer_inv :: "'a MinHeapTimer \<Rightarrow> bool" where
  "timer_inv s \<longleftrightarrow> heap_inv s \<and> map_inv s \<and> alloc_inv s \<and> ids_inv s"

text \<open>What \<^verbatim>\<open>_removeNode(p)\<close> does to the state, up to the \<open>idx\<close> fields.\<close>

definition remove_rel :: "addr \<Rightarrow> 'a MinHeapTimer \<Rightarrow> 'a MinHeapTimer \<Rightarrow> bool" where
  "remove_rel p s s' \<longleftrightarrow>
     set (heap s') = set (heap s) - {p} \<and>
     (\<forall>q. map_option strip_idx (store s' q) = map_option strip_idx (store s q)) \<and>
     map_ids s' = (map_ids s)(id_node (node_at s p) := None) \<and>
     count s' = count s \<and> next_addr s' = next_addr s \<and>
     clock s' = clock s \<and> reads s' = reads s \<and> fired s' = fired s"


text \<open>
  The common tail of the two \<^verbatim>\<open>_addTimer\<close> functions: \<^verbatim>\<open>push_back\<close>, \<^verbatim>\<open>_shiftUp\<close> of the
  last slot and \<^verbatim>\<open>_map.insert\<close>; and what it does to the state, up to the \<open>idx\<close> fields.
\<close>

definition push_node :: "addr \<Rightarrow> 32 word \<Rightarrow> 'a MinHeapTimer \<Rightarrow> 'a MinHeapTimer" where
  "push_node p i s =
     (let s4 = s\<lparr>heap := heap s @ [p]\<rparr>;
          s5 = shiftUp (length (heap s4) - 1) s4
      in s5\<lparr>map_ids := map_insert i p (map_ids s5)\<rparr>)"

definition push_rel :: "addr \<Rightarrow> 32 word \<Rightarrow> 'a MinHeapTimer \<Rightarrow> 'a MinHeapTimer \<Rightarrow> bool" where
  "push_rel p i s s' \<longleftrightarrow>
     set (heap s') = insert p (set (heap s)) \<and>
     (\<forall>q. map_option strip_idx (store s' q) = map_option strip_idx (store s q)) \<and>
     map_ids s' = map_insert i p (map_ids s) \<and>
     count s' = count s \<and> next_addr s' = next_addr s \<and>
     clock s' = clock s \<and> reads s' = reads s \<and> fired s' = fired s"


text \<open>
  The loop invariant behind the firing order of one-shot timers: from position \<open>k\<close> of
  the trace on, the calls are sorted by \<^verbatim>\<open>expire_ms\<close> and none is later than a node that
  is still in the heap.
\<close>

definition order_inv :: "nat \<Rightarrow> 'a MinHeapTimer \<Rightarrow> bool" where
  "order_inv k s \<longleftrightarrow>
     heap_inv s \<and> (\<forall>p \<in> set (heap s). \<not> is_loop (node_at s p)) \<and> k \<le> length (fired s) \<and>
     sorted (map (expire_ms \<circ> snd) (drop k (fired s))) \<and>
     (\<forall>e \<in> set (drop k (fired s)). \<forall>q \<in> set (heap s).
        expire_ms (snd e) \<le> expire_ms (node_at s q))"

text \<open>
  A node that has left the engine: it is not in the heap, its address is behind the
  allocator, and no call from position \<open>k\<close> of the trace on is a call of it.
\<close>

definition absent_inv :: "addr \<Rightarrow> nat \<Rightarrow> 'a MinHeapTimer \<Rightarrow> bool" where
  "absent_inv p k s \<longleftrightarrow>
     p \<notin> set (heap s) \<and> p < next_addr s \<and> k \<le> length (fired s) \<and>
     p \<notin> fst ` set (drop k (fired s))"

text \<open>
  For the sweep: the nodes that are due at \<open>now\<close>; the condition that a repeating node,
  whenever it is put back, gets an expiration after \<open>now\<close>; and the state in which the
  loop cannot leave, a due repeating node of interval 0 under a clock that stands still.
\<close>

definition due :: "64 word \<Rightarrow> 'a MinHeapTimer \<Rightarrow> addr set" where
  "due now s = {p \<in> set (heap s). expire_ms (node_at s p) \<le> now}"

definition lands_later :: "64 word \<Rightarrow> 'a MinHeapTimer \<Rightarrow> bool" where
  "lands_later now s \<longleftrightarrow>
     (\<forall>p \<in> set (heap s). is_loop (node_at s p) \<longrightarrow>
        (\<forall>k \<ge> reads s. now < clock s k + timing_time_ms (node_at s p)))"


text \<open>
  Conditions on the heap and on the clock from the reading of a sweep on. \<open>all_oneshot\<close>:
  no node in the heap repeats. \<open>reinserts_later\<close>: a repeating node put back at any
  later reading gets an expiration after the reading the sweep starts with.
  \<open>intervals_positive\<close>: every repeating node has an interval above zero.
  \<open>clock_steady\<close>: the later readings are not below that of the sweep, and none of them
  plus the interval of a repeating node passes \<open>2^64\<close>. \<open>clock_frozen\<close>: all later
  readings are that of the sweep.
\<close>

definition all_oneshot :: "'a MinHeapTimer \<Rightarrow> bool" where
  "all_oneshot s \<longleftrightarrow> (\<forall>p \<in> set (heap s). \<not> is_loop (node_at s p))"

definition reinserts_later :: "'a MinHeapTimer \<Rightarrow> bool" where
  "reinserts_later s \<longleftrightarrow>
     (\<forall>p \<in> set (heap s). is_loop (node_at s p) \<longrightarrow>
        (\<forall>k > reads s. clock s (reads s) < clock s k + timing_time_ms (node_at s p)))"




section \<open>Example engines\<close>

text \<open>
  Concrete clocks, call sequences and states on which the theorems below are
  instantiated and the behaviour of the code is evaluated.
\<close>

definition clock_A :: "nat \<Rightarrow> 64 word" where
  "clock_A k = (if k < 3 then 0 else 30)"

definition engine_A :: "unit MinHeapTimer" where
  "engine_A = MinHeapTimer_init clock_A"


definition engine_B :: "unit MinHeapTimer" where
  "engine_B = snd (AddTimer 10 () True False (snd (AddTimer 50 () True False engine_A)))"

definition engine_max :: "unit MinHeapTimer" where
  "engine_max = engine_A\<lparr>count := 2147483647\<rparr>"


definition driver_A :: "unit MinHeapTimerLoop" where
  "driver_A = MinHeapTimerLoop_init 1000 clock_A"

text \<open>
  A repeating timer of 20 ms scheduled at time 0. With \<open>clock_C\<close> every later reading
  is 20; with \<open>clock_D\<close> the clock moves on to 21 between the reading that a sweep takes
  at its start and the reading taken when the node is put back.
\<close>

definition clock_C :: "nat \<Rightarrow> 64 word" where
  "clock_C k = (if k = 0 then 0 else 20)"

definition engine_C :: "unit MinHeapTimer" where
  "engine_C = snd (AddTimer 20 () True True (MinHeapTimer_init clock_C))"

definition clock_D :: "nat \<Rightarrow> 64 word" where
  "clock_D k = (if k = 0 then 0 else if k = 1 then 20 else 21)"

definition engine_D :: "unit MinHeapTimer" where
  "engine_D = snd (AddTimer 20 () True True (MinHeapTimer_init clock_D))"

text \<open>
  Scenario A of the specification: one-shot timers of 50, 10 and 30 ms scheduled at
  time 0 and sweeps at times 10, 30 and 50.
\<close>

definition clock_S :: "nat \<Rightarrow> 64 word" where
  "clock_S k = (if k < 3 then 0 else if k = 3 then 10 else if k = 4 then 30 else 50)"

definition engine_S :: "unit MinHeapTimer" where
  "engine_S = snd (AddTimer 30 () True False (snd (AddTimer 10 () True False
                (snd (AddTimer 50 () True False (MinHeapTimer_init clock_S))))))"



definition clock_F :: "nat \<Rightarrow> 64 word" where
  "clock_F k = (if k < 3 then 10 else 11)"

definition engine_F :: "unit MinHeapTimer" where
  "engine_F = snd (AddTimer 0 () True True (MinHeapTimer_init clock_F))"



text \<open>
  One-shot timers of 50 and 10 ms and a repeating timer of 30 ms, scheduled at time 0;
  the clock reads 30 from then on.
\<close>

definition engine_M :: "unit MinHeapTimer" where
  "engine_M = snd (AddTimer 30 () True True (snd (AddTimer 10 () True False
                (snd (AddTimer 50 () True False engine_A)))))"

section \<open>Basic facts\<close>

lemma heap_swap_heap [simp]: "heap (swap_heap i j s) = (heap s)[i := heap s ! j, j := heap s ! i]"
  and store_swap_heap [simp]: "store (swap_heap i j s) = store s"
  by (simp_all add: swap_heap_def)

lemma heap_set_idx [simp]: "heap (set_idx i s) = heap s"
  by (simp add: set_idx_def)

lemma store_set_idx:
  "store (set_idx i s) = (store s)(heap s ! i := map_option (\<lambda>n. n\<lparr>idx := i\<rparr>) (store s (heap s ! i)))"
  by (simp add: set_idx_def)

lemma key_set_idx [simp]: "expire_ms (node_at (set_idx i s) p) = expire_ms (node_at s p)"
  by (cases "store s p") (auto simp: set_idx_def node_at_def)

lemma keys_set_idx [simp]: "keys (set_idx i s) = keys s"
  by (simp add: keys_def)

lemma keys_swap_heap:
  "i < length (heap s) \<Longrightarrow> j < length (heap s) \<Longrightarrow>
   keys (swap_heap i j s) = (keys s)[i := keys s ! j, j := keys s ! i]"
  by (simp add: keys_def map_update node_at_def)

lemma length_keys [simp]: "length (keys s) = length (heap s)"
  by (simp add: keys_def)

lemma lessThan_t_keys:
  "i < length (heap s) \<Longrightarrow> j < length (heap s) \<Longrightarrow> lessThan_t i j s = (keys s ! i < keys s ! j)"
  by (simp add: lessThan_t_def keys_def)

lemma strip_set_idx [simp]:
  "map_option strip_idx (store (set_idx i s) p) = map_option strip_idx (store s p)"
  by (cases "store s p") (auto simp: set_idx_def strip_idx_def)

lemma sift_rel_refl: "sift_rel n s s"
  by (simp add: sift_rel_def)

lemma sift_rel_trans: "sift_rel n s s1 \<Longrightarrow> sift_rel n s1 s2 \<Longrightarrow> sift_rel n s s2"
  by (simp add: sift_rel_def)


lemma rest_set_idx [simp]:
  "map_ids (set_idx i s) = map_ids s" "count (set_idx i s) = count s"
  "next_addr (set_idx i s) = next_addr s" "clock (set_idx i s) = clock s"
  "reads (set_idx i s) = reads s" "fired (set_idx i s) = fired s"
  by (simp_all add: set_idx_def)

lemma rest_swap_heap [simp]:
  "map_ids (swap_heap i j s) = map_ids s" "count (swap_heap i j s) = count s"
  "next_addr (swap_heap i j s) = next_addr s" "clock (swap_heap i j s) = clock s"
  "reads (swap_heap i j s) = reads s" "fired (swap_heap i j s) = fired s"
  by (simp_all add: swap_heap_def)

lemma set_take_swap:
  assumes "i < n" "j < n" "n \<le> length xs"
  shows "set (take n (xs[i := xs ! j, j := xs ! i])) = set (take n xs)"
proof -
  have "set ((take n xs)[i := take n xs ! j, j := take n xs ! i]) = set (take n xs)"
    by (rule set_swap) (use assms in simp_all)
  moreover have "take n (xs[i := xs ! j, j := xs ! i]) = (take n xs)[i := take n xs ! j, j := take n xs ! i]"
    using assms by (simp add: take_update_swap)
  ultimately show ?thesis by simp
qed

lemma nth_in_take: "i < n \<Longrightarrow> n \<le> length xs \<Longrightarrow> xs ! i \<in> set (take n xs)"
  by (metis length_take min.absorb2 nth_mem nth_take)

lemma swap_step_rel:
  assumes "i < n" "j < n" "n \<le> length (heap s)"
  shows "sift_rel n s (set_idx j (set_idx i (swap_heap i j s)))"
proof -
  have a: "heap s ! i \<in> set (take n (heap s))" "heap s ! j \<in> set (take n (heap s))"
    using assms by (simp_all add: nth_in_take)
  have "store (set_idx j (set_idx i (swap_heap i j s))) p = store s p"
    if "p \<notin> set (take n (heap s))" for p
  proof -
    have "i < length (heap s)" "j < length (heap s)" using assms by simp_all
    then have "heap (swap_heap i j s) ! i \<in> set (take n (heap s))"
      "heap (swap_heap i j s) ! j \<in> set (take n (heap s))"
      using a by (auto simp: nth_list_update)
    then show ?thesis using that by (auto simp: store_set_idx)
  qed
  then show ?thesis
    unfolding sift_rel_def using assms by (simp add: set_take_swap)
qed

lemma swap_step_idx:
  assumes ok: "idx_ok n s" and ij: "i < n" "j < n" "i \<noteq> j"
  shows "idx_ok n (set_idx j (set_idx i (swap_heap i j s)))"
proof -
  let ?s = "set_idx j (set_idx i (swap_heap i j s))"
  have n: "n \<le> length (heap s)" and d: "distinct (heap s)"
    and dom: "\<And>k. k < length (heap s) \<Longrightarrow> store s (heap s ! k) \<noteq> None"
    and ix: "\<And>k. k < n \<Longrightarrow> idx (node_at s (heap s ! k)) = k"
    using ok by (simp_all add: idx_ok_def)
  have il: "i < length (heap s)" and jl: "j < length (heap s)" using ij n by simp_all
  have ne: "heap s ! i \<noteq> heap s ! j" using d ij il jl by (simp add: nth_eq_iff_index_eq)
  have h: "heap ?s = (heap s)[i := heap s ! j, j := heap s ! i]" by simp
  have d': "distinct (heap ?s)" using d il jl by (simp add: distinct_swap)
  have st: "store ?s = (store s)
      (heap s ! j := map_option (\<lambda>n. n\<lparr>idx := i\<rparr>) (store s (heap s ! j)),
       heap s ! i := map_option (\<lambda>n. n\<lparr>idx := j\<rparr>) (store s (heap s ! i)))"
    using il jl ij ne by (simp add: store_set_idx)
  have dom': "store ?s (heap ?s ! k) \<noteq> None" if "k < length (heap ?s)" for k
  proof -
    have "heap ?s ! k \<in> set (heap ?s)" using that by simp
    then have "heap ?s ! k \<in> set (heap s)" using il jl by (simp add: set_swap)
    then obtain k' where "k' < length (heap s)" "heap ?s ! k = heap s ! k'"
      by (metis in_set_conv_nth)
    then have "store s (heap ?s ! k) \<noteq> None" using dom by simp
    then show ?thesis unfolding st using dom [OF il] dom [OF jl] by auto
  qed
  have ix': "idx (node_at ?s (heap ?s ! k)) = k" if k: "k < n" for k
  proof -
    have kl: "k < length (heap s)" using k n by simp
    consider "k = i" | "k = j" | "k \<noteq> i" "k \<noteq> j" by blast
    then show ?thesis
    proof cases
      case 1
      then have "heap ?s ! k = heap s ! j" using il jl ij by simp
      then show ?thesis using 1 ne dom [OF jl] unfolding node_at_def st by auto
    next
      case 2
      then have "heap ?s ! k = heap s ! i" using il jl ij by simp
      then show ?thesis using 2 ne dom [OF il] unfolding node_at_def st by auto
    next
      case 3
      then have e: "heap ?s ! k = heap s ! k" by simp
      have "heap s ! k \<noteq> heap s ! i" "heap s ! k \<noteq> heap s ! j"
        using d 3 kl il jl by (simp_all add: nth_eq_iff_index_eq)
      then show ?thesis using e ix [OF k] unfolding node_at_def st by simp
    qed
  qed
  show ?thesis unfolding idx_ok_def using n d' dom' ix' by simp
qed


subsection \<open>The heap order under a swap\<close>

lemma parent_of_less: "0 < j \<Longrightarrow> parent_of j < j"
  unfolding parent_of_def by arith

lemma parent_of_child: "parent_of j = i \<Longrightarrow> 0 < j \<Longrightarrow> j = 2 * i + 1 \<or> j = 2 * i + 2"
  unfolding parent_of_def by arith

lemma up_inv_swap:
  assumes inv: "up_inv ks n i" and i: "i < n" "n \<le> length ks" "0 < i"
    and lt: "ks ! i < ks ! (parent_of i)"
  shows "up_inv (ks[parent_of i := ks ! i, i := ks ! (parent_of i)]) n (parent_of i)"
proof -
  define p where "p = parent_of i"
  define ks' where "ks' = ks[p := ks ! i, i := ks ! p]"
  have pi: "p < i" unfolding p_def using i parent_of_less by simp
  have n_i: "ks' ! i = ks ! p" using i by (simp add: ks'_def)
  have n_p: "ks' ! p = ks ! i" using i pi by (simp add: ks'_def)
  have n_o: "\<And>j. j \<noteq> i \<Longrightarrow> j \<noteq> p \<Longrightarrow> ks' ! j = ks ! j" by (simp add: ks'_def)
  have pairs: "\<And>j. 0 < j \<Longrightarrow> j < n \<Longrightarrow> j \<noteq> i \<Longrightarrow> ks ! (parent_of j) \<le> ks ! j"
    using inv by (simp add: up_inv_def)
  have grand: "\<And>j. 0 < j \<Longrightarrow> j < n \<Longrightarrow> parent_of j = i \<Longrightarrow> ks ! p \<le> ks ! j"
    using inv i by (simp add: up_inv_def grand_ok_def p_def)
  have a: "ks' ! (parent_of j) \<le> ks' ! j" if j: "0 < j" "j < n" "j \<noteq> p" for j
  proof (cases "j = i")
    case True
    then show ?thesis using n_i n_p lt by (simp add: p_def [symmetric])
  next
    case False
    note ji = this
    have nj: "ks' ! j = ks ! j" using n_o ji j by simp
    show ?thesis
    proof (cases "parent_of j = p")
      case True
      then have "ks' ! (parent_of j) = ks ! i" using n_p by simp
      moreover have "ks ! p \<le> ks ! j" using pairs [OF j(1,2) ji] True by simp
      ultimately show ?thesis using lt nj by (simp add: p_def [symmetric])
    next
      case False
      note np = this
      show ?thesis
      proof (cases "parent_of j = i")
        case True
        then show ?thesis using n_i grand [OF j(1,2) True] nj by simp
      next
        case False
        then show ?thesis using n_o [OF False np] pairs [OF j(1,2) ji] nj by simp
      qed
    qed
  qed
  have b: "ks' ! (parent_of p) \<le> ks' ! j"
    if j: "0 < j" "j < n" "parent_of j = p" "0 < p" for j
  proof -
    have pp: "parent_of p < p" using j(4) parent_of_less by simp
    have pn: "p < n" using pi i by simp
    have gp: "ks' ! (parent_of p) = ks ! (parent_of p)" using n_o pp pi by simp
    have up: "ks ! (parent_of p) \<le> ks ! p" using pairs [OF j(4) pn] pi by simp
    have jp: "j \<noteq> p" using j parent_of_less [of j] by simp
    show ?thesis
    proof (cases "j = i")
      case True
      then show ?thesis using gp up n_i by simp
    next
      case False
      then have "ks' ! j = ks ! j" using n_o jp by simp
      moreover have "ks ! p \<le> ks ! j" using pairs [OF j(1,2) False] j(3) by simp
      ultimately show ?thesis using gp up by simp
    qed
  qed
  show ?thesis
    unfolding up_inv_def grand_ok_def p_def [symmetric] ks'_def [symmetric]
    using a b by blast
qed

lemma down_inv_swap:
  assumes inv: "both_inv ks n i" and m: "m < n" "n \<le> length ks" "parent_of m = i" "0 < m"
    and lt: "ks ! m < ks ! i"
    and sib: "\<forall>j. 0 < j \<and> j < n \<and> parent_of j = i \<longrightarrow> ks ! m \<le> ks ! j"
  shows "down_inv (ks[i := ks ! m, m := ks ! i]) n m"
proof -
  define ks' where "ks' = ks[i := ks ! m, m := ks ! i]"
  have im: "i < m" using m parent_of_less [of m] by simp
  have n_m: "ks' ! m = ks ! i" using m by (simp add: ks'_def)
  have n_i: "ks' ! i = ks ! m" using m im by (simp add: ks'_def)
  have n_o: "\<And>j. j \<noteq> i \<Longrightarrow> j \<noteq> m \<Longrightarrow> ks' ! j = ks ! j" by (simp add: ks'_def)
  have pairs: "\<And>j. 0 < j \<Longrightarrow> j < n \<Longrightarrow> j \<noteq> i \<Longrightarrow> parent_of j \<noteq> i
      \<Longrightarrow> ks ! (parent_of j) \<le> ks ! j"
    using inv by (simp add: both_inv_def)
  have grand: "\<And>j. 0 < j \<Longrightarrow> j < n \<Longrightarrow> parent_of j = i \<Longrightarrow> 0 < i
      \<Longrightarrow> ks ! (parent_of i) \<le> ks ! j"
    using inv by (simp add: both_inv_def grand_ok_def)
  have a: "ks' ! (parent_of j) \<le> ks' ! j" if j: "0 < j" "j < n" "parent_of j \<noteq> m" for j
  proof (cases "j = i")
    case True
    then have i0: "0 < i" using j by simp
    have "parent_of i < i" using i0 parent_of_less by simp
    then have "ks' ! (parent_of i) = ks ! (parent_of i)" using n_o im by simp
    then show ?thesis using True n_i grand [OF m(4) m(1) m(3) i0] by simp
  next
    case False
    note ji = this
    show ?thesis
    proof (cases "parent_of j = i")
      case True
      show ?thesis
      proof (cases "j = m")
        case True
        then show ?thesis using n_m n_i lt m by simp
      next
        case False
        then have "ks' ! j = ks ! j" using n_o ji by simp
        then show ?thesis using True n_i sib j by simp
      qed
    next
      case False
      have jm: "j \<noteq> m" using False m by auto
      have "ks' ! j = ks ! j" using n_o ji jm by simp
      moreover have "ks' ! (parent_of j) = ks ! (parent_of j)" using n_o False j(3) by simp
      ultimately show ?thesis using pairs [OF j(1,2) ji False] by simp
    qed
  qed
  have b: "ks' ! (parent_of m) \<le> ks' ! j"
    if j: "0 < j" "j < n" "parent_of j = m" for j
  proof -
    have mj: "m < j" using j parent_of_less [of j] by simp
    then have "ks' ! j = ks ! j" using n_o im by simp
    moreover have "ks ! m \<le> ks ! j" using pairs [OF j(1,2)] j(3) im mj by simp
    ultimately show ?thesis using n_i m(3) by simp
  qed
  show ?thesis
    unfolding down_inv_def grand_ok_def ks'_def [symmetric]
    using a b by blast
qed

lemma up_inv_done:
  "up_inv ks n i \<Longrightarrow> i = 0 \<or> ks ! (parent_of i) \<le> ks ! i \<Longrightarrow> heap_below ks n"
  unfolding up_inv_def heap_below_def by (metis not_gr_zero)

lemma down_inv_done:
  "down_inv ks n i \<Longrightarrow> \<forall>j. 0 < j \<and> j < n \<and> parent_of j = i \<longrightarrow> ks ! i \<le> ks ! j
     \<Longrightarrow> heap_below ks n"
  unfolding down_inv_def heap_below_def by metis

lemma both_inv_stay:
  "both_inv ks n i \<Longrightarrow> \<forall>j. 0 < j \<and> j < n \<and> parent_of j = i \<longrightarrow> ks ! i \<le> ks ! j
     \<Longrightarrow> up_inv ks n i"
  unfolding both_inv_def up_inv_def by metis

lemma down_inv_both: "down_inv ks n i \<Longrightarrow> both_inv ks n i"
  unfolding both_inv_def down_inv_def by metis

subsection \<open>Sifting up and down\<close>

declare shiftUp.simps [simp del] shiftDown_loop.simps [simp del]

lemma shiftUp_frame:
  "idx_ok n s \<Longrightarrow> pos < n \<Longrightarrow> sift_rel n s (shiftUp pos s) \<and> idx_ok n (shiftUp pos s)"
proof (induction pos s rule: shiftUp.induct)
  case (1 pos s)
  define parent where "parent = (pos - 1) div 2"
  show ?case
  proof (cases "parent = pos \<or> \<not> lessThan_t pos parent s")
    case True
    then have "shiftUp pos s = s" by (subst shiftUp.simps) (simp add: parent_def)
    then show ?thesis using "1.prems" by (simp add: sift_rel_refl)
  next
    case False
    let ?s = "set_idx pos (set_idx parent (swap_heap parent pos s))"
    have e: "shiftUp pos s = shiftUp parent ?s"
      using False by (subst shiftUp.simps) (simp add: parent_def Let_def)
    have lt: "parent < pos" using False unfolding parent_def by arith
    have n: "n \<le> length (heap s)" using "1.prems" by (simp add: idx_ok_def)
    have r: "sift_rel n s ?s" using lt "1.prems" n by (simp add: swap_step_rel)
    have ok: "idx_ok n ?s" using lt "1.prems" by (simp add: swap_step_idx)
    have "sift_rel n ?s (shiftUp parent ?s) \<and> idx_ok n (shiftUp parent ?s)"
      using "1.IH" [OF parent_def False ok] lt "1.prems" by simp
    then show ?thesis using e r sift_rel_trans by metis
  qed
qed

lemma shiftUp_order:
  "pos < n \<Longrightarrow> n \<le> length (heap s) \<Longrightarrow> up_inv (keys s) n pos
     \<Longrightarrow> heap_below (keys (shiftUp pos s)) n"
proof (induction pos s rule: shiftUp.induct)
  case (1 pos s)
  define parent where "parent = (pos - 1) div 2"
  have pp: "parent = parent_of pos" by (simp add: parent_def parent_of_def)
  have pl: "pos < length (heap s)" using "1.prems" by simp
  have parl: "parent < length (heap s)" using pl unfolding parent_def by arith
  show ?case
  proof (cases "parent = pos \<or> \<not> lessThan_t pos parent s")
    case True
    then have e: "shiftUp pos s = s" by (subst shiftUp.simps) (simp add: parent_def)
    have "parent = pos \<Longrightarrow> pos = 0" unfolding parent_def by arith
    moreover have "\<not> lessThan_t pos parent s \<Longrightarrow> keys s ! parent \<le> keys s ! pos"
      unfolding lessThan_t_keys [OF pl parl] by simp
    ultimately have "pos = 0 \<or> keys s ! (parent_of pos) \<le> keys s ! pos"
      using True unfolding pp by blast
    then show ?thesis using e up_inv_done "1.prems" by metis
  next
    case False
    let ?s = "set_idx pos (set_idx parent (swap_heap parent pos s))"
    have e: "shiftUp pos s = shiftUp parent ?s"
      using False by (subst shiftUp.simps) (simp add: parent_def Let_def)
    have lt: "parent < pos" using False unfolding parent_def by arith
    have klt: "keys s ! pos < keys s ! (parent_of pos)"
      using False lessThan_t_keys [OF pl parl] by (simp add: pp)
    have ks: "keys ?s = (keys s)[parent_of pos := keys s ! pos, pos := keys s ! (parent_of pos)]"
      using pl parl by (simp add: keys_swap_heap pp)
    have "up_inv (keys ?s) n (parent_of pos)"
      unfolding ks using "1.prems" lt by (intro up_inv_swap) (simp_all add: klt)
    then have "heap_below (keys (shiftUp parent ?s)) n"
      using "1.IH" [OF parent_def False] lt "1.prems" by (simp add: pp)
    then show ?thesis using e by simp
  qed
qed

lemma shiftDown_loop_leaf: "n \<le> 2 * i + 1 \<Longrightarrow> shiftDown_loop n i s = (i, s)"
  by (subst shiftDown_loop.simps) simp

lemma shiftDown_loop_stop:
  "2 * i + 1 < n \<Longrightarrow> \<not> lessThan_t (min_child n i s) i s \<Longrightarrow> shiftDown_loop n i s = (i, s)"
  by (subst shiftDown_loop.simps) (auto simp: min_child_def Let_def)

lemma shiftDown_loop_step:
  "2 * i + 1 < n \<Longrightarrow> lessThan_t (min_child n i s) i s \<Longrightarrow>
   shiftDown_loop n i s =
     shiftDown_loop n (min_child n i s)
       (set_idx (min_child n i s) (set_idx i (swap_heap i (min_child n i s) s)))"
  by (subst shiftDown_loop.simps) (auto simp: min_child_def Let_def)

lemma min_child_props:
  assumes "2 * i + 1 < n" "n \<le> length (heap s)"
  shows "min_child n i s < n" "i < min_child n i s" "parent_of (min_child n i s) = i"
    "\<forall>j. 0 < j \<and> j < n \<and> parent_of j = i \<longrightarrow> keys s ! (min_child n i s) \<le> keys s ! j"
proof -
  show "min_child n i s < n" "i < min_child n i s" "parent_of (min_child n i s) = i"
    using assms by (auto simp: min_child_def parent_of_def)
  show "\<forall>j. 0 < j \<and> j < n \<and> parent_of j = i \<longrightarrow> keys s ! (min_child n i s) \<le> keys s ! j"
  proof (intro allI impI)
    fix j assume j: "0 < j \<and> j < n \<and> parent_of j = i"
    then have c: "j = 2 * i + 1 \<or> j = 2 * i + 2" using parent_of_child by blast
    have l: "2 * i + 1 < length (heap s)" using assms by simp
    show "keys s ! (min_child n i s) \<le> keys s ! j"
    proof (cases "2 * i + 2 < n")
      case True
      then have r: "2 * i + 2 < length (heap s)" using assms by simp
      show ?thesis using c lessThan_t_keys [OF l r] True by (auto simp: min_child_def)
    next
      case False
      then show ?thesis using c j by (auto simp: min_child_def)
    qed
  qed
qed



lemma shiftDown_loop_frame:
  "idx_ok n s \<Longrightarrow>
   sift_rel n s (snd (shiftDown_loop n i s)) \<and> idx_ok n (snd (shiftDown_loop n i s)) \<and>
   i \<le> fst (shiftDown_loop n i s) \<and>
   (fst (shiftDown_loop n i s) = i \<longrightarrow> snd (shiftDown_loop n i s) = s)"
proof (induction "n - i" arbitrary: i s rule: less_induct)
  case less
  have n: "n \<le> length (heap s)" using less.prems by (simp add: idx_ok_def)
  show ?case
  proof (cases "n \<le> 2 * i + 1")
    case True
    then show ?thesis using less.prems by (simp add: shiftDown_loop_leaf sift_rel_refl)
  next
    case False
    then have l: "2 * i + 1 < n" by simp
    define m where "m = min_child n i s"
    note mp = min_child_props [OF l n, folded m_def]
    show ?thesis
    proof (cases "lessThan_t m i s")
      case False
      then show ?thesis using less.prems l
        by (simp add: shiftDown_loop_stop m_def sift_rel_refl)
    next
      case True
      let ?s = "set_idx m (set_idx i (swap_heap i m s))"
      have e: "shiftDown_loop n i s = shiftDown_loop n m ?s"
        using True l by (simp add: shiftDown_loop_step m_def)
      have im: "i < n" "i \<noteq> m" using mp by simp_all
      have r: "sift_rel n s ?s" using im mp n by (simp add: swap_step_rel)
      have ok: "idx_ok n ?s" using im mp less.prems by (simp add: swap_step_idx)
      have dec: "n - m < n - i" using mp by simp
      have ih: "sift_rel n ?s (snd (shiftDown_loop n m ?s))"
        "idx_ok n (snd (shiftDown_loop n m ?s))"
        "m \<le> fst (shiftDown_loop n m ?s)"
        using less.hyps [OF dec ok] by simp_all
      have "sift_rel n s (snd (shiftDown_loop n m ?s))" using r ih(1) by (rule sift_rel_trans)
      moreover have "i < fst (shiftDown_loop n m ?s)" using ih(3) mp(2) by simp
      ultimately show ?thesis unfolding e using ih(2) by simp
    qed
  qed
qed


lemma no_child_below: "n \<le> 2 * i + 1 \<Longrightarrow> 0 < j \<Longrightarrow> j < n \<Longrightarrow> parent_of j \<noteq> i"
  unfolding parent_of_def by arith

lemma shiftDown_loop_order:
  "n \<le> length (heap s) \<Longrightarrow> down_inv (keys s) n i
     \<Longrightarrow> heap_below (keys (snd (shiftDown_loop n i s))) n"
proof (induction "n - i" arbitrary: i s rule: less_induct)
  case less
  note n = less.prems(1)
  show ?case
  proof (cases "n \<le> 2 * i + 1")
    case True
    have "\<forall>j. 0 < j \<and> j < n \<and> parent_of j = i \<longrightarrow> keys s ! i \<le> keys s ! j"
      using no_child_below [OF True] by blast
    then have "heap_below (keys s) n" using less.prems(2) by (rule down_inv_done [rotated])
    then show ?thesis using True by (simp add: shiftDown_loop_leaf)
  next
    case False
    then have l: "2 * i + 1 < n" by simp
    define m where "m = min_child n i s"
    note mp = min_child_props [OF l n, folded m_def]
    have ml: "m < length (heap s)" and il: "i < length (heap s)" using mp n by simp_all
    show ?thesis
    proof (cases "lessThan_t m i s")
      case False
      then have "keys s ! i \<le> keys s ! m" using lessThan_t_keys [OF ml il] by simp
      then have "\<forall>j. 0 < j \<and> j < n \<and> parent_of j = i \<longrightarrow> keys s ! i \<le> keys s ! j"
        using mp(4) order_trans by blast
      then have "heap_below (keys s) n" using less.prems(2) by (rule down_inv_done [rotated])
      then show ?thesis using False l by (simp add: shiftDown_loop_stop m_def)
    next
      case True
      let ?s = "set_idx m (set_idx i (swap_heap i m s))"
      have e: "shiftDown_loop n i s = shiftDown_loop n m ?s"
        using True l by (simp add: shiftDown_loop_step m_def)
      have klt: "keys s ! m < keys s ! i" using True lessThan_t_keys [OF ml il] by simp
      have ks: "keys ?s = (keys s)[i := keys s ! m, m := keys s ! i]"
        using ml il by (simp add: keys_swap_heap)
      have m0: "0 < m" using mp(2) by simp
      have "down_inv ((keys s)[i := keys s ! m, m := keys s ! i]) n m"
        using down_inv_both [OF less.prems(2)] mp(1) _ mp(3) m0 klt mp(4)
        by (rule down_inv_swap) (simp add: n)
      then have d: "down_inv (keys ?s) n m" unfolding ks .
      have dec: "n - m < n - i" using mp by simp
      have "heap_below (keys (snd (shiftDown_loop n m ?s))) n"
        using less.hyps [OF dec _ d] n by simp
      then show ?thesis using e by simp
    qed
  qed
qed

lemma shiftDown_loop_first:
  assumes n: "n \<le> length (heap s)" and inv: "both_inv (keys s) n i" and ok: "idx_ok n s"
  shows "if i < fst (shiftDown_loop n i s) then heap_below (keys (snd (shiftDown_loop n i s))) n
         else shiftDown_loop n i s = (i, s) \<and> up_inv (keys s) n i"
proof (cases "n \<le> 2 * i + 1")
  case True
  have "\<forall>j. 0 < j \<and> j < n \<and> parent_of j = i \<longrightarrow> keys s ! i \<le> keys s ! j"
    using no_child_below [OF True] by blast
  then have "up_inv (keys s) n i" using inv by (rule both_inv_stay [rotated])
  then show ?thesis using True by (simp add: shiftDown_loop_leaf)
next
  case False
  then have l: "2 * i + 1 < n" by simp
  define m where "m = min_child n i s"
  note mp = min_child_props [OF l n, folded m_def]
  have ml: "m < length (heap s)" and il: "i < length (heap s)" using mp n by simp_all
  show ?thesis
  proof (cases "lessThan_t m i s")
    case False
    then have "keys s ! i \<le> keys s ! m" using lessThan_t_keys [OF ml il] by simp
    then have "\<forall>j. 0 < j \<and> j < n \<and> parent_of j = i \<longrightarrow> keys s ! i \<le> keys s ! j"
      using mp(4) order_trans by blast
    then have "up_inv (keys s) n i" using inv by (rule both_inv_stay [rotated])
    then show ?thesis using False l by (simp add: shiftDown_loop_stop m_def)
  next
    case True
    let ?s = "set_idx m (set_idx i (swap_heap i m s))"
    have e: "shiftDown_loop n i s = shiftDown_loop n m ?s"
      using True l by (simp add: shiftDown_loop_step m_def)
    have klt: "keys s ! m < keys s ! i" using True lessThan_t_keys [OF ml il] by simp
    have ks: "keys ?s = (keys s)[i := keys s ! m, m := keys s ! i]"
      using ml il by (simp add: keys_swap_heap)
    have m0: "0 < m" using mp(2) by simp
    have "down_inv ((keys s)[i := keys s ! m, m := keys s ! i]) n m"
      using inv mp(1) _ mp(3) m0 klt mp(4)
      by (rule down_inv_swap) (simp add: n)
    then have d: "down_inv (keys ?s) n m" unfolding ks .
    have "heap_below (keys (snd (shiftDown_loop n m ?s))) n"
      using shiftDown_loop_order [OF _ d] n by simp
    moreover have "idx_ok n ?s" using ok mp by (simp add: swap_step_idx)
    then have "m \<le> fst (shiftDown_loop n m ?s)" using shiftDown_loop_frame by blast
    then have "i < fst (shiftDown_loop n m ?s)" using mp(2) by simp
    ultimately show ?thesis using e by simp
  qed
qed

subsection \<open>Removing a node\<close>

lemma strip_eq_fields:
  assumes "map_option strip_idx (store s' q) = map_option strip_idx (store s q)"
  shows "id_node (node_at s' q) = id_node (node_at s q)"
    "expire_ms (node_at s' q) = expire_ms (node_at s q)"
    "timing_time_ms (node_at s' q) = timing_time_ms (node_at s q)"
    "is_loop (node_at s' q) = is_loop (node_at s q)"
    "fb (node_at s' q) = fb (node_at s q)"
    "data (node_at s' q) = data (node_at s q)"
    "(store s' q = None) = (store s q = None)"
proof -
  show "(store s' q = None) = (store s q = None)" using assms by (metis map_option_is_None)
  show "id_node (node_at s' q) = id_node (node_at s q)"
    "expire_ms (node_at s' q) = expire_ms (node_at s q)"
    "timing_time_ms (node_at s' q) = timing_time_ms (node_at s q)"
    "is_loop (node_at s' q) = is_loop (node_at s q)"
    "fb (node_at s' q) = fb (node_at s q)"
    "data (node_at s' q) = data (node_at s q)"
    using assms
    by (cases "store s' q"; cases "store s q"; simp add: node_at_def strip_idx_def;
        metis TimerNode.select_convs TimerNode.surjective TimerNode.update_convs)+
qed

lemma idx_ok_nth:
  assumes "idx_ok (length (heap s)) s" "p \<in> set (heap s)"
  shows "idx (node_at s p) < length (heap s)" "heap s ! idx (node_at s p) = p"
proof -
  obtain k where k: "k < length (heap s)" "heap s ! k = p"
    using assms(2) by (metis in_set_conv_nth)
  then have "idx (node_at s p) = k" using assms(1) by (auto simp: idx_ok_def)
  then show "idx (node_at s p) < length (heap s)" "heap s ! idx (node_at s p) = p"
    using k by simp_all
qed



lemma pop_heap_inv:
  assumes ok: "idx_ok n s" and hb: "heap_below (keys s) n" and n: "Suc n = length (heap s)"
  shows "heap_inv (s\<lparr>heap := butlast (heap s), map_ids := m\<rparr>)"
proof -
  define t where "t = s\<lparr>heap := butlast (heap s), map_ids := m\<rparr>"
  have ht: "heap t = butlast (heap s)" and st: "store t = store s" by (simp_all add: t_def)
  have len: "length (heap t) = n" using n by (simp add: ht)
  have nth: "heap t ! k = heap s ! k" if "k < n" for k
    using that n by (simp add: ht nth_butlast)
  have na: "\<And>q. node_at t q = node_at s q" by (simp add: node_at_def st)
  have d: "distinct (heap t)" using ok by (simp add: ht idx_ok_def distinct_butlast)
  have dom: "store t (heap t ! k) \<noteq> None" if "k < n" for k
  proof -
    have "k < length (heap s)" using that n by simp
    then have "store s (heap s ! k) \<noteq> None" using ok by (simp add: idx_ok_def)
    then show ?thesis using nth [OF that] by (simp add: st)
  qed
  have ix: "idx (node_at t (heap t ! k)) = k" if "k < n" for k
  proof -
    have "idx (node_at s (heap s ! k)) = k" using ok that by (simp add: idx_ok_def)
    then show ?thesis using nth [OF that] by (simp add: na)
  qed
  have a: "idx_ok n t" unfolding idx_ok_def using len d dom ix by simp
  have kt: "keys t = butlast (keys s)" by (simp add: keys_def na ht map_butlast)
  have kn: "keys t ! k = keys s ! k" if "k < n" for k
    using that n by (simp add: kt nth_butlast)
  have "keys t ! (parent_of j) \<le> keys t ! j" if j: "0 < j" "j < n" for j
  proof -
    have "parent_of j < n" using parent_of_less [OF j(1)] j(2) by simp
    then have "keys t ! (parent_of j) = keys s ! (parent_of j)" by (rule kn)
    moreover have "keys s ! (parent_of j) \<le> keys s ! j" using hb j by (simp add: heap_below_def)
    ultimately show ?thesis using kn [OF j(2)] by simp
  qed
  then have "heap_below (keys t) n" by (simp add: heap_below_def)
  then show ?thesis unfolding heap_inv_def t_def [symmetric] using a len by simp
qed

lemma swap_last_props:
  assumes inv: "heap_inv s" and i: "i < n" and n: "Suc n = length (heap s)"
  shows "idx_ok n (set_idx i (swap_heap i n s))"
    and "both_inv (keys (set_idx i (swap_heap i n s))) n i"
proof -
  define t where "t = set_idx i (swap_heap i n s)"
  have ok: "idx_ok (length (heap s)) s" and hb: "heap_below (keys s) (length (heap s))"
    using inv by (simp_all add: heap_inv_def)
  have d: "distinct (heap s)" using ok by (simp add: idx_ok_def)
  have il: "i < length (heap s)" and nl: "n < length (heap s)" using i n by simp_all
  have h: "heap t = (heap s)[i := heap s ! n, n := heap s ! i]" by (simp add: t_def)
  have hi: "heap t ! i = heap s ! n" using il nl i by (simp add: h)
  have st: "store t = (store s)(heap s ! n := map_option (\<lambda>nd. nd\<lparr>idx := i\<rparr>) (store s (heap s ! n)))"
    using il nl i by (simp add: t_def store_set_idx)
  have dom: "\<And>k. k < length (heap s) \<Longrightarrow> store s (heap s ! k) \<noteq> None"
    using ok by (simp add: idx_ok_def)
  have "distinct (heap t)" using d il nl by (simp add: h distinct_swap)
  moreover have "store t (heap t ! k) \<noteq> None" if "k < length (heap t)" for k
  proof -
    have "heap t ! k \<in> set (heap t)" using that by simp
    then have "heap t ! k \<in> set (heap s)" using il nl by (simp add: h set_swap)
    then obtain k' where "k' < length (heap s)" "heap t ! k = heap s ! k'"
      by (metis in_set_conv_nth)
    then have "store s (heap t ! k) \<noteq> None" using dom by simp
    then show ?thesis unfolding st using dom [OF nl] by auto
  qed
  moreover have "idx (node_at t (heap t ! k)) = k" if k: "k < n" for k
  proof (cases "k = i")
    case True
    then show ?thesis using hi dom [OF nl] unfolding node_at_def st by auto
  next
    case False
    then have e: "heap t ! k = heap s ! k" using k by (simp add: h)
    have "heap s ! k \<noteq> heap s ! n" using d k nl by (simp add: nth_eq_iff_index_eq)
    moreover have "idx (node_at s (heap s ! k)) = k" using ok k nl by (simp add: idx_ok_def)
    ultimately show ?thesis using e unfolding node_at_def st by simp
  qed
  ultimately have "idx_ok n t" unfolding idx_ok_def using n by (simp add: h)
  then show "idx_ok n (set_idx i (swap_heap i n s))" by (simp add: t_def)
  have ks: "keys t = (keys s)[i := keys s ! n, n := keys s ! i]"
    using il nl by (simp add: t_def keys_swap_heap)
  have same: "\<And>j. j \<noteq> i \<Longrightarrow> j < n \<Longrightarrow> keys t ! j = keys s ! j" unfolding ks by simp
  have pairs: "\<And>j. 0 < j \<Longrightarrow> j < Suc n \<Longrightarrow> keys s ! (parent_of j) \<le> keys s ! j"
    using hb n unfolding heap_below_def by simp
  have a: "keys t ! (parent_of j) \<le> keys t ! j"
    if j: "0 < j" "j < n" "j \<noteq> i" "parent_of j \<noteq> i" for j
  proof -
    have "parent_of j < n" using parent_of_less [OF j(1)] j(2) by simp
    then have "keys t ! (parent_of j) = keys s ! (parent_of j)" using same j(4) by blast
    moreover have "keys t ! j = keys s ! j" using same j(2,3) by blast
    moreover have "keys s ! (parent_of j) \<le> keys s ! j" using pairs j(1,2) by simp
    ultimately show ?thesis by simp
  qed
  have b: "keys t ! (parent_of i) \<le> keys t ! j"
    if j: "0 < j" "j < n" "parent_of j = i" "0 < i" for j
  proof -
    have pi: "parent_of i < i" using parent_of_less j(4) by simp
    have ji: "j \<noteq> i" using parent_of_less [OF j(1)] j(3) by simp
    have "keys s ! (parent_of i) \<le> keys s ! i" using pairs j(4) i by simp
    moreover have "keys s ! i \<le> keys s ! j" using pairs [of j] j by simp
    moreover have "keys t ! (parent_of i) = keys s ! (parent_of i)" using same pi i by simp
    moreover have "keys t ! j = keys s ! j" using same ji j by simp
    ultimately show ?thesis by simp
  qed
  have "both_inv (keys t) n i" unfolding both_inv_def grand_ok_def using a b by blast
  then show "both_inv (keys (set_idx i (swap_heap i n s))) n i" by (simp add: t_def)
qed

lemma set_take_last:
  assumes "distinct xs" "Suc n = length xs"
  shows "set (take n xs) = set xs - {xs ! n}" "butlast xs = take n xs"
proof -
  have e: "xs = take n xs @ [xs ! n]"
    using assms(2) by (metis lessI take_Suc_conv_app_nth take_all order_refl)
  have "distinct (take n xs @ [xs ! n])" using assms(1) e by simp
  then have "xs ! n \<notin> set (take n xs)" by simp
  moreover have "set xs = set (take n xs) \<union> {xs ! n}" using e by (metis set_append list.set(1,2) Un_insert_right sup_bot.right_neutral)
  ultimately show "set (take n xs) = set xs - {xs ! n}" by auto
  show "butlast xs = take n xs" using e by (metis butlast_snoc)
qed

lemma idx_ok_mono: "idx_ok m s \<Longrightarrow> n \<le> m \<Longrightarrow> idx_ok n s"
  by (simp add: idx_ok_def)

lemma heap_below_mono: "heap_below ks m \<Longrightarrow> n \<le> m \<Longrightarrow> heap_below ks n"
  by (simp add: heap_below_def)

lemma removeNode_last:
  "idx (node_at s p) = length (heap s) - 1 \<Longrightarrow>
   removeNode p s = s\<lparr>heap := butlast (heap s), map_ids := (map_ids s)(id_node (node_at s p) := None)\<rparr>"
  by (simp add: removeNode_def)

lemma removeNode_inner:
  "idx (node_at s p) \<noteq> length (heap s) - 1 \<Longrightarrow> i = idx (node_at s p) \<Longrightarrow> n = length (heap s) - 1 \<Longrightarrow>
   s0 = set_idx i (swap_heap i n s) \<Longrightarrow>
   s1 = (if i < fst (shiftDown_loop n i s0) then snd (shiftDown_loop n i s0)
         else shiftUp i (snd (shiftDown_loop n i s0))) \<Longrightarrow>
   removeNode p s = s1\<lparr>heap := butlast (heap s1), map_ids := (map_ids s1)(id_node (node_at s1 p) := None)\<rparr>"
  by (simp add: removeNode_def shiftDown_def Let_def split_beta)


lemma strip_sift_rel:
  "sift_rel n s s' \<Longrightarrow> map_option strip_idx (store s' q) = map_option strip_idx (store s q)"
  by (simp add: sift_rel_def)

lemma removeNode_inv:
  assumes inv: "heap_inv s" and p: "p \<in> set (heap s)"
  shows "heap_inv (removeNode p s) \<and> remove_rel p s (removeNode p s)"
proof -
  define n where "n = length (heap s) - 1"
  define i where "i = idx (node_at s p)"
  have ok: "idx_ok (length (heap s)) s" and hb: "heap_below (keys s) (length (heap s))"
    using inv by (simp_all add: heap_inv_def)
  have d: "distinct (heap s)" using ok by (simp add: idx_ok_def)
  have il: "i < length (heap s)" and hi: "heap s ! i = p"
    using idx_ok_nth [OF ok p] by (simp_all add: i_def)
  have n: "Suc n = length (heap s)" using il by (simp add: n_def)
  show ?thesis
  proof (cases "i = n")
    case True
    have e: "removeNode p s =
        s\<lparr>heap := butlast (heap s), map_ids := (map_ids s)(id_node (node_at s p) := None)\<rparr>"
      using True by (simp add: removeNode_last i_def n_def)
    have "heap_inv (removeNode p s)"
      unfolding e using idx_ok_mono [OF ok] heap_below_mono [OF hb] n
      by (intro pop_heap_inv [where n = n]) simp_all
    moreover have "set (butlast (heap s)) = set (heap s) - {p}"
      using set_take_last [OF d n] hi True by simp
    then have "remove_rel p s (removeNode p s)" unfolding e remove_rel_def by simp
    ultimately show ?thesis by simp
  next
    case False
    then have i_n: "i < n" using il n by simp
    define s0 where "s0 = set_idx i (swap_heap i n s)"
    define L where "L = shiftDown_loop n i s0"
    define s1 where "s1 = (if i < fst L then snd L else shiftUp i (snd L))"
    have e: "removeNode p s =
        s1\<lparr>heap := butlast (heap s1), map_ids := (map_ids s1)(id_node (node_at s1 p) := None)\<rparr>"
      using False by (intro removeNode_inner [where i = i and n = n and ?s0.0 = s0])
        (simp_all add: i_def n_def s0_def s1_def L_def)
    have ok0: "idx_ok n s0" and b0: "both_inv (keys s0) n i"
      using swap_last_props [OF inv i_n n] by (simp_all add: s0_def)
    have h0: "heap s0 = (heap s)[i := heap s ! n, n := heap s ! i]" by (simp add: s0_def)
    have n0: "n \<le> length (heap s0)" using ok0 by (simp add: idx_ok_def)
    have first: "if i < fst L then heap_below (keys (snd L)) n
                 else L = (i, s0) \<and> up_inv (keys s0) n i"
      unfolding L_def by (rule shiftDown_loop_first [OF n0 b0 ok0])
    have frame: "sift_rel n s0 (snd L)" "idx_ok n (snd L)"
      using shiftDown_loop_frame [OF ok0, of i] by (simp_all add: L_def)
    have s1: "sift_rel n s0 s1 \<and> idx_ok n s1 \<and> heap_below (keys s1) n"
    proof (cases "i < fst L")
      case True
      then show ?thesis using first frame by (simp add: s1_def)
    next
      case False
      then have l: "L = (i, s0)" and u: "up_inv (keys s0) n i" using first by simp_all
      have "s1 = shiftUp i s0" using False l by (simp add: s1_def)
      then show ?thesis
        using shiftUp_frame [OF ok0 i_n] shiftUp_order [OF i_n n0 u] by simp
    qed
    have len1: "Suc n = length (heap s1)" using s1 n by (simp add: sift_rel_def h0)
    have hinv: "heap_inv (removeNode p s)"
      unfolding e using s1 len1 by (intro pop_heap_inv [where n = n]) simp_all
    have d0: "distinct (heap s0)" using ok0 by (simp add: idx_ok_def)
    have d1: "distinct (heap s1)" using s1 by (simp add: idx_ok_def)
    have len0: "Suc n = length (heap s0)" using n by (simp add: h0)
    have "set (heap s0) = set (heap s)" using il n unfolding h0 by (simp add: set_swap)
    moreover have "heap s0 ! n = p" using n i_n hi by (simp add: h0)
    ultimately have "set (take n (heap s0)) = set (heap s) - {p}"
      using set_take_last(1) [OF d0 len0] by simp
    moreover have "set (take n (heap s1)) = set (take n (heap s0))" using s1 by (simp add: sift_rel_def)
    ultimately have set1: "set (butlast (heap s1)) = set (heap s) - {p}"
      using set_take_last(2) [OF d1 len1] by simp
    have strip: "map_option strip_idx (store s1 q) = map_option strip_idx (store s q)" for q
    proof -
      have "map_option strip_idx (store s1 q) = map_option strip_idx (store s0 q)"
        using s1 strip_sift_rel by blast
      then show ?thesis by (simp add: s0_def)
    qed
    have idp: "id_node (node_at s1 p) = id_node (node_at s p)"
      using strip_eq_fields(1) [OF strip] .
    have rest: "map_ids s1 = map_ids s" "count s1 = count s" "next_addr s1 = next_addr s"
      "clock s1 = clock s" "reads s1 = reads s" "fired s1 = fired s"
      using s1 by (simp_all add: sift_rel_def s0_def)
    have "remove_rel p s (removeNode p s)"
      unfolding e remove_rel_def using set1 strip idp rest by simp
    then show ?thesis using hinv by simp
  qed
qed

subsection \<open>Adding a node\<close>

lemma push_shiftUp:
  assumes inv: "heap_inv s" and p: "p \<notin> set (heap s)" and nd: "store s p \<noteq> None"
    and ix: "idx (node_at s p) = length (heap s)"
    and t: "t = s\<lparr>heap := heap s @ [p]\<rparr>"
  shows "heap_inv (shiftUp (length (heap t) - 1) t)"
    and "sift_rel (length (heap t)) t (shiftUp (length (heap t) - 1) t)"
proof -
  define N where "N = length (heap s)"
  have ok: "idx_ok N s" and hb: "heap_below (keys s) N"
    using inv by (simp_all add: heap_inv_def N_def)
  have ht: "heap t = heap s @ [p]" and st: "store t = store s" by (simp_all add: t)
  have na: "\<And>q. node_at t q = node_at s q" by (simp add: node_at_def st)
  have len: "length (heap t) = Suc N" by (simp add: ht N_def)
  have nth: "heap t ! k = heap s ! k" if "k < N" for k
    using that by (simp add: ht N_def nth_append)
  have nthN: "heap t ! N = p" by (simp add: ht N_def)
  have d: "distinct (heap t)" using ok p by (simp add: ht idx_ok_def)
  have dom: "store t (heap t ! k) \<noteq> None" if "k < Suc N" for k
  proof (cases "k < N")
    case True
    then have "store s (heap s ! k) \<noteq> None" using ok by (simp add: idx_ok_def N_def)
    then show ?thesis using nth [OF True] by (simp add: st)
  next
    case False
    then have "k = N" using that by simp
    then show ?thesis using nthN nd by (simp add: st)
  qed
  have ixt: "idx (node_at t (heap t ! k)) = k" if "k < Suc N" for k
  proof (cases "k < N")
    case True
    then have "idx (node_at s (heap s ! k)) = k" using ok by (simp add: idx_ok_def)
    then show ?thesis using nth [OF True] by (simp add: na)
  next
    case False
    then have "k = N" using that by simp
    then show ?thesis using nthN ix by (simp add: na N_def)
  qed
  have okt: "idx_ok (Suc N) t" unfolding idx_ok_def using len d dom ixt by simp
  have kn: "keys t ! k = keys s ! k" if "k < N" for k
    using that by (simp add: keys_def na ht nth_append N_def)
  have a: "keys t ! (parent_of j) \<le> keys t ! j" if j: "0 < j" "j < Suc N" "j \<noteq> N" for j
  proof -
    have jN: "j < N" using j by simp
    then have "parent_of j < N" using parent_of_less [OF j(1)] by simp
    then have "keys t ! (parent_of j) = keys s ! (parent_of j)" by (rule kn)
    moreover have "keys s ! (parent_of j) \<le> keys s ! j" using hb j(1) jN by (simp add: heap_below_def)
    ultimately show ?thesis using kn [OF jN] by simp
  qed
  have b: "\<not> (0 < j \<and> j < Suc N \<and> parent_of j = N)" for j
    using parent_of_less [of j] by auto
  have up: "up_inv (keys t) (Suc N) N" unfolding up_inv_def grand_ok_def using a b by blast
  have fr: "sift_rel (Suc N) t (shiftUp N t) \<and> idx_ok (Suc N) (shiftUp N t)"
    by (rule shiftUp_frame [OF okt]) simp
  have "heap_below (keys (shiftUp N t)) (Suc N)"
    by (rule shiftUp_order [OF _ _ up]) (simp_all add: len)
  moreover have "length (heap (shiftUp N t)) = Suc N" using fr len by (simp add: sift_rel_def)
  ultimately have "heap_inv (shiftUp N t)" using fr by (simp add: heap_inv_def)
  then show "heap_inv (shiftUp (length (heap t) - 1) t)" by (simp add: len)
  show "sift_rel (length (heap t)) t (shiftUp (length (heap t) - 1) t)" using fr by (simp add: len)
qed

lemma sift_rel_set:
  assumes "sift_rel n s s'" "n = length (heap s)"
  shows "set (heap s') = set (heap s)"
proof -
  have "length (heap s') = n" using assms by (simp add: sift_rel_def)
  then have "take n (heap s') = heap s'" "take n (heap s) = heap s" using assms by simp_all
  then show ?thesis using assms(1) unfolding sift_rel_def by metis
qed

text \<open>heap_inv looks at the store only through the nodes in the heap.\<close>

lemma heap_inv_cong:
  assumes inv: "heap_inv s" and h: "heap s' = heap s"
    and st: "\<And>q. q \<in> set (heap s) \<Longrightarrow> store s' q = store s q"
  shows "heap_inv s'"
proof -
  have na: "node_at s' (heap s ! k) = node_at s (heap s ! k)" if "k < length (heap s)" for k
    using st [of "heap s ! k"] that by (simp add: node_at_def)
  have "keys s' = keys s" unfolding keys_def h using st by (simp add: node_at_def)
  moreover have "idx_ok (length (heap s)) s'"
    using inv na st unfolding heap_inv_def idx_ok_def h by simp
  ultimately show ?thesis using inv by (simp add: heap_inv_def h)
qed

lemma push_node_inv:
  assumes inv: "heap_inv s" and p: "p \<notin> set (heap s)" and nd: "store s p \<noteq> None"
    and ix: "idx (node_at s p) = length (heap s)"
  shows "heap_inv (push_node p i s) \<and> push_rel p i s (push_node p i s)"
proof -
  define t where "t = s\<lparr>heap := heap s @ [p]\<rparr>"
  define u where "u = shiftUp (length (heap t) - 1) t"
  have e: "push_node p i s = u\<lparr>map_ids := map_insert i p (map_ids u)\<rparr>"
    by (simp add: push_node_def t_def u_def Let_def)
  have hu: "heap_inv u" and r: "sift_rel (length (heap t)) t u"
    using push_shiftUp [OF inv p nd ix t_def] by (simp_all add: u_def)
  have "heap_inv (u\<lparr>map_ids := map_insert i p (map_ids u)\<rparr>)"
    by (rule heap_inv_cong [OF hu]) simp_all
  moreover have "set (heap u) = insert p (set (heap s))"
    using sift_rel_set [OF r refl] by (simp add: t_def)
  moreover have "map_option strip_idx (store u q) = map_option strip_idx (store s q)" for q
    using strip_sift_rel [OF r, of q] by (simp add: t_def)
  moreover have "map_ids u = map_ids s" "count u = count s" "next_addr u = next_addr s"
    "clock u = clock s" "reads u = reads s" "fired u = fired s"
    using r by (simp_all add: sift_rel_def t_def)
  ultimately show ?thesis unfolding e push_rel_def by simp
qed

lemma addTimer_unfold:
  "addTimer timing d f l s =
     (count s + 1,
      push_node (next_addr s) (count s + 1)
        (s\<lparr>reads := Suc (reads s), count := count s + 1,
           store := (store s)(next_addr s \<mapsto>
             \<lparr>idx = length (heap s), id_node = count s + 1,
              expire_ms = clock s (reads s) + timing, timing_time_ms = timing,
              data = d, fb = f, is_loop = l\<rparr>),
           next_addr := Suc (next_addr s)\<rparr>))"
  by (simp add: addTimer_def CurrentTime_ms_def Count_def push_node_def Let_def)

lemma addTimer_node_unfold:
  "addTimer_node p s =
     (count s + 1,
      push_node p (count s + 1)
        (s\<lparr>reads := Suc (reads s), count := count s + 1,
           store := (store s)(p := map_option
             (\<lambda>n. n\<lparr>id_node := count s + 1,
                    expire_ms := clock s (reads s) + timing_time_ms (node_at s p),
                    idx := length (heap s)\<rparr>) (store s p))\<rparr>))"
  by (simp add: addTimer_node_def CurrentTime_ms_def Count_def push_node_def Let_def node_at_def)

lemma addTimer_summary:
  assumes inv: "heap_inv s" and al: "alloc_inv s"
    and r: "addTimer timing d f l s = (i, s')"
  shows "i = count s + 1" "heap_inv s'"
    "set (heap s') = insert (next_addr s) (set (heap s))" "next_addr s \<notin> set (heap s)"
    "\<And>q. q \<noteq> next_addr s \<Longrightarrow> map_option strip_idx (store s' q) = map_option strip_idx (store s q)"
    "map_option strip_idx (store s' (next_addr s)) =
       Some \<lparr>idx = 0, id_node = count s + 1, expire_ms = clock s (reads s) + timing,
             timing_time_ms = timing, data = d, fb = f, is_loop = l\<rparr>"
    "map_ids s' = map_insert (count s + 1) (next_addr s) (map_ids s)"
    "count s' = count s + 1" "next_addr s' = Suc (next_addr s)" "clock s' = clock s"
    "reads s' = Suc (reads s)" "fired s' = fired s"
proof -
  define p where "p = next_addr s"
  define nd where "nd = \<lparr>idx = length (heap s), id_node = count s + 1,
              expire_ms = clock s (reads s) + timing, timing_time_ms = timing,
              data = d, fb = f, is_loop = l\<rparr>"
  define t where "t = s\<lparr>reads := Suc (reads s), count := count s + 1,
           store := (store s)(p \<mapsto> nd), next_addr := Suc p\<rparr>"
  have e: "addTimer timing d f l s = (count s + 1, push_node p (count s + 1) t)"
    unfolding addTimer_unfold t_def nd_def p_def ..
  have i: "i = count s + 1" and s': "s' = push_node p (count s + 1) t" using r e by auto
  have pn: "p \<notin> set (heap s)" using al by (auto simp: alloc_inv_def p_def)
  have ht: "heap t = heap s" by (simp add: t_def)
  have it: "heap_inv t"
    by (rule heap_inv_cong [OF inv ht]) (use pn in \<open>auto simp: t_def\<close>)
  have "heap_inv (push_node p (count s + 1) t) \<and> push_rel p (count s + 1) t (push_node p (count s + 1) t)"
    by (rule push_node_inv [OF it]) (use pn in \<open>simp_all add: t_def node_at_def nd_def\<close>)
  then have hs: "heap_inv s'" and pr: "push_rel p (count s + 1) t s'" by (simp_all add: s')
  show "i = count s + 1" by (rule i)
  show "heap_inv s'" by (rule hs)
  show "next_addr s \<notin> set (heap s)" using pn by (simp add: p_def)
  show "set (heap s') = insert (next_addr s) (set (heap s))"
    using pr by (simp add: push_rel_def ht p_def)
  have st: "map_option strip_idx (store s' q) = map_option strip_idx (store t q)" for q
    using pr by (simp add: push_rel_def)
  show "\<And>q. q \<noteq> next_addr s \<Longrightarrow> map_option strip_idx (store s' q) = map_option strip_idx (store s q)"
    unfolding st by (simp add: t_def p_def)
  show "map_option strip_idx (store s' (next_addr s)) =
       Some \<lparr>idx = 0, id_node = count s + 1, expire_ms = clock s (reads s) + timing,
             timing_time_ms = timing, data = d, fb = f, is_loop = l\<rparr>"
    unfolding st by (simp add: t_def p_def nd_def strip_idx_def)
  show "map_ids s' = map_insert (count s + 1) (next_addr s) (map_ids s)"
    "count s' = count s + 1" "next_addr s' = Suc (next_addr s)" "clock s' = clock s"
    "reads s' = Suc (reads s)" "fired s' = fired s"
    using pr by (simp_all add: push_rel_def t_def p_def)
qed

lemma delNode_summary:
  assumes inv: "heap_inv s" and p: "p \<in> set (heap s)"
  shows "heap_inv (delNode p s)" "set (heap (delNode p s)) = set (heap s) - {p}"
    "\<And>q. q \<noteq> p \<Longrightarrow> map_option strip_idx (store (delNode p s) q) = map_option strip_idx (store s q)"
    "store (delNode p s) p = None"
    "map_ids (delNode p s) = (map_ids s)(id_node (node_at s p) := None)"
    "count (delNode p s) = count s" "next_addr (delNode p s) = next_addr s"
    "clock (delNode p s) = clock s" "reads (delNode p s) = reads s" "fired (delNode p s) = fired s"
proof -
  define t where "t = removeNode p s"
  have e: "delNode p s = t\<lparr>store := (store t)(p := None)\<rparr>" by (simp add: delNode_def t_def Let_def)
  have it: "heap_inv t" and rr: "remove_rel p s t" using removeNode_inv [OF inv p] by (simp_all add: t_def)
  have ht: "set (heap t) = set (heap s) - {p}" using rr by (simp add: remove_rel_def)
  show "heap_inv (delNode p s)" unfolding e
    by (rule heap_inv_cong [OF it]) (use ht in auto)
  show "set (heap (delNode p s)) = set (heap s) - {p}" unfolding e using ht by simp
  show "\<And>q. q \<noteq> p \<Longrightarrow> map_option strip_idx (store (delNode p s) q) = map_option strip_idx (store s q)"
    unfolding e using rr by (simp add: remove_rel_def)
  show "store (delNode p s) p = None" unfolding e by simp
  show "map_ids (delNode p s) = (map_ids s)(id_node (node_at s p) := None)"
    "count (delNode p s) = count s" "next_addr (delNode p s) = next_addr s"
    "clock (delNode p s) = clock s" "reads (delNode p s) = reads s" "fired (delNode p s) = fired s"
    unfolding e using rr by (simp_all add: remove_rel_def)
qed

lemma readd_summary:
  assumes inv: "heap_inv s" and p: "p \<in> set (heap s)"
    and r: "addTimer_node p (removeNode p s) = (i, s')"
  shows "i = count s + 1" "heap_inv s'" "set (heap s') = set (heap s)"
    "\<And>q. q \<noteq> p \<Longrightarrow> map_option strip_idx (store s' q) = map_option strip_idx (store s q)"
    "map_option strip_idx (store s' p) =
       Some ((strip_idx (node_at s p))\<lparr>id_node := count s + 1,
              expire_ms := clock s (reads s) + timing_time_ms (node_at s p)\<rparr>)"
    "map_ids s' = map_insert (count s + 1) p ((map_ids s)(id_node (node_at s p) := None))"
    "count s' = count s + 1" "next_addr s' = next_addr s" "clock s' = clock s"
    "reads s' = Suc (reads s)" "fired s' = fired s"
proof -
  define u where "u = removeNode p s"
  have iu: "heap_inv u" and rr: "remove_rel p s u" using removeNode_inv [OF inv p] by (simp_all add: u_def)
  have hu: "set (heap u) = set (heap s) - {p}" using rr by (simp add: remove_rel_def)
  have su: "map_option strip_idx (store u q) = map_option strip_idx (store s q)" for q
    using rr by (simp add: remove_rel_def)
  have ru: "map_ids u = (map_ids s)(id_node (node_at s p) := None)"
    "count u = count s" "next_addr u = next_addr s"
    "clock u = clock s" "reads u = reads s" "fired u = fired s"
    using rr by (simp_all add: remove_rel_def)
  have ok: "idx_ok (length (heap s)) s" using inv by (simp add: heap_inv_def)
  have "idx (node_at s p) < length (heap s)" using idx_ok_nth(1) [OF ok p] .
  then have "store s (heap s ! idx (node_at s p)) \<noteq> None" using ok by (simp add: idx_ok_def)
  then have sp: "store s p \<noteq> None" using idx_ok_nth(2) [OF ok p] by simp
  then have up: "store u p \<noteq> None" using strip_eq_fields(7) [OF su] by simp
  define f where "f = (\<lambda>n :: 'a TimerNode. n\<lparr>id_node := count u + 1,
                    expire_ms := clock u (reads u) + timing_time_ms (node_at u p),
                    idx := length (heap u)\<rparr>)"
  define t where "t = u\<lparr>reads := Suc (reads u), count := count u + 1,
           store := (store u)(p := map_option f (store u p))\<rparr>"
  have e: "addTimer_node p u = (count u + 1, push_node p (count u + 1) t)"
    unfolding addTimer_node_unfold t_def f_def ..
  have i: "i = count u + 1" and s': "s' = push_node p (count u + 1) t"
    using r e by (auto simp: u_def)
  have pn: "p \<notin> set (heap u)" using hu by simp
  have ht: "heap t = heap u" by (simp add: t_def)
  have it: "heap_inv t"
    by (rule heap_inv_cong [OF iu ht]) (use pn in \<open>auto simp: t_def\<close>)
  have "heap_inv (push_node p (count u + 1) t) \<and> push_rel p (count u + 1) t (push_node p (count u + 1) t)"
    by (rule push_node_inv [OF it]) (use pn up in \<open>auto simp: t_def node_at_def f_def\<close>)
  then have hs: "heap_inv s'" and pr: "push_rel p (count u + 1) t s'" by (simp_all add: s')
  show "i = count s + 1" using i ru by simp
  show "heap_inv s'" by (rule hs)
  show "set (heap s') = set (heap s)" using pr hu p by (auto simp: push_rel_def ht)
  have st: "map_option strip_idx (store s' q) = map_option strip_idx (store t q)" for q
    using pr by (simp add: push_rel_def)
  show "\<And>q. q \<noteq> p \<Longrightarrow> map_option strip_idx (store s' q) = map_option strip_idx (store s q)"
    unfolding st using su by (simp add: t_def)
  have tm: "timing_time_ms (node_at u p) = timing_time_ms (node_at s p)"
    using strip_eq_fields(3) [OF su] .
  obtain n0 where n0: "store s p = Some n0" using sp by auto
  obtain n1 where n1: "store u p = Some n1" using up by auto
  have n01: "strip_idx n1 = strip_idx n0" using su [of p] n0 n1 by simp
  have "strip_idx (f n1) = (strip_idx n1)\<lparr>id_node := count s + 1,
              expire_ms := clock s (reads s) + timing_time_ms (node_at s p)\<rparr>"
    by (simp add: f_def strip_idx_def ru tm)
  then show "map_option strip_idx (store s' p) =
       Some ((strip_idx (node_at s p))\<lparr>id_node := count s + 1,
              expire_ms := clock s (reads s) + timing_time_ms (node_at s p)\<rparr>)"
    unfolding st using n0 n1 n01 by (simp add: t_def node_at_def)
  show "map_ids s' = map_insert (count s + 1) p ((map_ids s)(id_node (node_at s p) := None))"
    "count s' = count s + 1" "next_addr s' = next_addr s" "clock s' = clock s"
    "reads s' = Suc (reads s)" "fired s' = fired s"
    using pr ru by (simp_all add: push_rel_def t_def)
qed

lemma sint_succ:
  assumes "sint (x :: 32 word) < 2147483647"
  shows "sint (x + 1) = sint x + 1"
proof -
  have "- (2 ^ 31) \<le> sint x" using sint_ge [of x] by simp
  then have "signed_take_bit 31 (sint x + 1) = sint x + 1"
    using assms by (intro signed_take_bit_int_eq_self) simp_all
  then show ?thesis by (simp add: sint_word_add)
qed

subsection \<open>The mutex\<close>

text \<open>
  Nothing below \<^verbatim>\<open>DelTimer\<close> touches the mutex, and nothing reads it. A cancellation that
  finds its node leaves the mutex as it was: taken and released when it was free, left
  alone when it was held. A cancellation that does not find it leaves the mutex held.
\<close>

lemma mtx_swap_set [simp]:
  "mtx_locked (set_idx i s) = mtx_locked s" "mtx_locked (swap_heap i j s) = mtx_locked s"
  "set_idx i (s\<lparr>mtx_locked := b\<rparr>) = (set_idx i s)\<lparr>mtx_locked := b\<rparr>"
  "swap_heap i j (s\<lparr>mtx_locked := b\<rparr>) = (swap_heap i j s)\<lparr>mtx_locked := b\<rparr>"
  "lessThan_t i j (s\<lparr>mtx_locked := b\<rparr>) = lessThan_t i j s"
  "node_at (s\<lparr>mtx_locked := b\<rparr>) p = node_at s p"
  by (simp_all add: set_idx_def swap_heap_def lessThan_t_def node_at_def)

lemma shiftUp_mtx:
  "shiftUp pos (s\<lparr>mtx_locked := b\<rparr>) = (shiftUp pos s)\<lparr>mtx_locked := b\<rparr>"
proof (induction pos s rule: shiftUp.induct)
  case (1 pos s)
  show ?case
    using "1.IH"
    by (subst shiftUp.simps, subst (2) shiftUp.simps) (simp add: Let_def)
qed

lemma shiftUp_mtx_locked [simp]: "mtx_locked (shiftUp pos s) = mtx_locked s"
proof (induction pos s rule: shiftUp.induct)
  case (1 pos s)
  show ?case using "1.IH" by (subst shiftUp.simps) (simp add: Let_def)
qed

lemma min_child_mtx [simp]: "min_child n i (s\<lparr>mtx_locked := b\<rparr>) = min_child n i s"
  by (simp add: min_child_def)

lemma shiftDown_loop_mtx:
  "shiftDown_loop n i (s\<lparr>mtx_locked := b\<rparr>) =
     (fst (shiftDown_loop n i s), (snd (shiftDown_loop n i s))\<lparr>mtx_locked := b\<rparr>)"
proof (induction "n - i" arbitrary: i s rule: less_induct)
  case less
  show ?case
  proof (cases "n \<le> 2 * i + 1")
    case True
    show ?thesis by (simp only: shiftDown_loop_leaf [OF True] fst_conv snd_conv)
  next
    case False
    then have l: "2 * i + 1 < n" by simp
    define m where "m = min_child n i s"
    have mi: "n - m < n - i" using l by (auto simp: m_def min_child_def)
    show ?thesis
    proof (cases "lessThan_t m i s")
      case False
      have a: "shiftDown_loop n i s = (i, s)" using False l by (simp add: shiftDown_loop_stop m_def)
      have b: "shiftDown_loop n i (s\<lparr>mtx_locked := b\<rparr>) = (i, s\<lparr>mtx_locked := b\<rparr>)"
        using False l by (simp add: shiftDown_loop_stop m_def)
      show ?thesis by (simp only: a b fst_conv snd_conv)
    next
      case True
      let ?s = "set_idx m (set_idx i (swap_heap i m s))"
      have a: "shiftDown_loop n i s = shiftDown_loop n m ?s"
        using True l by (simp add: shiftDown_loop_step m_def)
      have b: "shiftDown_loop n i (s\<lparr>mtx_locked := b\<rparr>) = shiftDown_loop n m (?s\<lparr>mtx_locked := b\<rparr>)"
        using True l by (simp add: shiftDown_loop_step [of i n "s\<lparr>mtx_locked := b\<rparr>"] m_def)
      show ?thesis by (simp only: a b less [OF mi])
    qed
  qed
qed

lemma shiftDown_loop_mtx_locked [simp]: "mtx_locked (snd (shiftDown_loop n i s)) = mtx_locked s"
proof (induction "n - i" arbitrary: i s rule: less_induct)
  case less
  show ?case
  proof (cases "n \<le> 2 * i + 1")
    case True
    show ?thesis by (simp only: shiftDown_loop_leaf [OF True] snd_conv)
  next
    case False
    then have l: "2 * i + 1 < n" by simp
    define m where "m = min_child n i s"
    have mi: "n - m < n - i" using l by (auto simp: m_def min_child_def)
    show ?thesis
    proof (cases "lessThan_t m i s")
      case False
      have a: "shiftDown_loop n i s = (i, s)" using False l by (simp add: shiftDown_loop_stop m_def)
      show ?thesis by (simp only: a snd_conv)
    next
      case True
      let ?s = "set_idx m (set_idx i (swap_heap i m s))"
      have a: "shiftDown_loop n i s = shiftDown_loop n m ?s"
        using True l by (simp add: shiftDown_loop_step m_def)
      have "mtx_locked ?s = mtx_locked s" by simp
      then show ?thesis using less [OF mi, of ?s] by (simp only: a)
    qed
  qed
qed

lemma removeNode_mtx:
  "removeNode p (s\<lparr>mtx_locked := b\<rparr>) = (removeNode p s)\<lparr>mtx_locked := b\<rparr>"
  by (simp add: removeNode_def shiftDown_def Let_def shiftDown_loop_mtx shiftUp_mtx split_beta)

lemma removeNode_mtx_locked [simp]: "mtx_locked (removeNode p s) = mtx_locked s"
  by (simp add: removeNode_def shiftDown_def Let_def split_beta)

lemma delNode_mtx:
  "delNode p (s\<lparr>mtx_locked := b\<rparr>) = (delNode p s)\<lparr>mtx_locked := b\<rparr>"
  by (simp add: delNode_def Let_def removeNode_mtx)

lemma delNode_mtx_locked [simp]: "mtx_locked (delNode p s) = mtx_locked s"
  by (simp add: delNode_def Let_def)

lemma mtx_id: "mtx_locked s = b \<Longrightarrow> s\<lparr>mtx_locked := b\<rparr> = s"
  by auto

lemma DelTimer_found:
  assumes "map_ids s i = Some p"
  shows "DelTimer i s = (True, delNode p s)"
proof (cases "mtx_locked s")
  case True
  then have e: "s\<lparr>mtx_locked := True\<rparr> = s" by (intro mtx_id) simp
  show ?thesis using assms True by (simp add: DelTimer_def try_lock_def e)
next
  case False
  have "(delNode p s)\<lparr>mtx_locked := False\<rparr> = delNode p s" using False by (intro mtx_id) simp
  then show ?thesis using assms False by (simp add: DelTimer_def try_lock_def unlock_def delNode_mtx)
qed

lemma DelTimer_unknown:
  assumes "map_ids s i = None"
  shows "DelTimer i s = (False, s\<lparr>mtx_locked := True\<rparr>)"
  using assms by (simp add: DelTimer_def try_lock_def)

lemma mtx_update_inv [simp]:
  "heap_inv (s\<lparr>mtx_locked := x\<rparr>) = heap_inv s" "timer_inv (s\<lparr>mtx_locked := x\<rparr>) = timer_inv s"
  by (simp_all add: timer_inv_def heap_inv_def idx_ok_def map_inv_def alloc_inv_def ids_inv_def
      keys_def node_at_def)

lemma addTimer_mtx_locked [simp]:
  "mtx_locked (snd (AddTimer timing d f l s)) = mtx_locked s"
  "mtx_locked (snd (addTimer_node p s)) = mtx_locked s"
  by (simp_all add: AddTimer_def addTimer_def addTimer_node_def CurrentTime_ms_def Count_def Let_def)

lemma init_mtx_locked [simp]: "mtx_locked (MinHeapTimer_init clk) = False"
  by (simp add: MinHeapTimer_init_def)

lemma engine_A_mtx_locked [simp]: "mtx_locked engine_A = False"
  by (simp add: engine_A_def)

lemma unique_lock_Some: "unique_lock s = Some s1 \<longleftrightarrow> \<not> mtx_locked s \<and> s1 = s"
  by (auto simp: unique_lock_def)

lemma unique_lock_free [simp]: "\<not> mtx_locked s \<Longrightarrow> unique_lock s = Some s"
  by (simp add: unique_lock_def)

lemma apply_op_free:
  "\<not> mtx_locked s \<Longrightarrow> apply_op (Schedule timing d f l) s = Some (snd (AddTimer timing d f l s))"
  "\<not> mtx_locked s \<Longrightarrow> apply_op (Sweep fuel) s = ExpireTimer fuel s"
  by simp_all

lemma apply_op_Some:
  "apply_op (Schedule timing d f l) s = Some s' \<longleftrightarrow>
     \<not> mtx_locked s \<and> s' = snd (AddTimer timing d f l s)"
  "apply_op (Sweep fuel) s = Some s' \<longleftrightarrow> \<not> mtx_locked s \<and> ExpireTimer fuel s = Some s'"
  by (auto simp: unique_lock_def)

lemma apply_op_held:
  "mtx_locked s \<Longrightarrow> apply_op (Schedule timing d f l) s = None"
  "mtx_locked s \<Longrightarrow> apply_op (Sweep fuel) s = None"
  by (simp_all add: unique_lock_def)

declare apply_op.simps(1,3) [simp del]
declare apply_op_free [simp] apply_op_Some [simp]

lemma DelTimer_unknown_then_waits:
  assumes "map_ids s i = None"
  shows "apply_op (Schedule timing d f l) (snd (DelTimer i s)) = None"
    "apply_op (Sweep fuel) (snd (DelTimer i s)) = None"
    "run (Cancel i # Schedule timing d f l # ops) s = None"
    "run (Cancel i # Sweep fuel # ops) s = None"
  using assms by (simp_all add: DelTimer_unknown apply_op_held)

subsection \<open>The invariant under the operations\<close>

lemma strip_some_fields:
  assumes "map_option strip_idx (store s q) = Some X"
  shows "id_node (node_at s q) = id_node X" "expire_ms (node_at s q) = expire_ms X"
    "timing_time_ms (node_at s q) = timing_time_ms X" "is_loop (node_at s q) = is_loop X"
    "fb (node_at s q) = fb X" "data (node_at s q) = data X" "store s q \<noteq> None"
  using assms by (cases "store s q"; auto simp: node_at_def strip_idx_def)+

lemma timer_inv_init: "timer_inv (MinHeapTimer_init clk)"
  by (simp add: timer_inv_def heap_inv_def idx_ok_def heap_below_def map_inv_def alloc_inv_def
      ids_inv_def MinHeapTimer_init_def keys_def)

lemma map_insert_fresh: "m k = None \<Longrightarrow> map_insert k p m = m(k \<mapsto> p)"
  by (simp add: map_insert_def)

lemma ids_fresh:
  assumes "map_inv s" "ids_inv s" "sint (count s) < 2147483647"
  shows "map_ids s (count s + 1) = None"
proof (rule ccontr)
  assume "map_ids s (count s + 1) \<noteq> None"
  then obtain q where "map_ids s (count s + 1) = Some q" by auto
  then have "q \<in> set (heap s)" "id_node (node_at s q) = count s + 1"
    using assms(1) by (simp_all add: map_inv_def)
  then have "sint (count s + 1) \<le> sint (count s)" using assms(2) by (auto simp: ids_inv_def)
  then show False using sint_succ [OF assms(3)] by simp
qed

lemma timer_inv_addTimer:
  assumes inv: "timer_inv s" and c: "sint (count s) < 2147483647"
    and r: "addTimer timing d f l s = (i, s')"
  shows "timer_inv s'" "map_ids s i = None" "map_ids s' i = Some (next_addr s)"
    "sint i = sint (count s) + 1"
proof -
  have hi: "heap_inv s" and mi: "map_inv s" and al: "alloc_inv s" and ii: "ids_inv s"
    using inv by (simp_all add: timer_inv_def)
  note su = addTimer_summary [OF hi al r]
  define p where "p = next_addr s"
  have i: "i = count s + 1" by (rule su(1))
  have fresh: "map_ids s i = None" unfolding i by (rule ids_fresh [OF mi ii c])
  have m': "map_ids s' = (map_ids s)(i \<mapsto> p)"
    using su(7) fresh by (simp add: map_insert_fresh i p_def)
  have h': "set (heap s') = insert p (set (heap s))" using su(3) by (simp add: p_def)
  have pn: "p \<notin> set (heap s)" using su(4) by (simp add: p_def)
  have idp: "id_node (node_at s' p) = i"
    using strip_some_fields(1) [OF su(6)] by (simp add: p_def i)
  have ido: "id_node (node_at s' q) = id_node (node_at s q)" if "q \<noteq> p" for q
    using strip_eq_fields(1) [OF su(5)] that by (simp add: p_def)
  have si: "sint i = sint (count s) + 1" unfolding i by (rule sint_succ [OF c])
  have old: "id_node (node_at s q) \<noteq> i" if "q \<in> set (heap s)" for q
    using ii that si by (auto simp: ids_inv_def)
  have "map_inv s'"
    unfolding map_inv_def
  proof (intro allI)
    fix j q
    show "map_ids s' j = Some q \<longleftrightarrow> q \<in> set (heap s') \<and> id_node (node_at s' q) = j"
    proof (cases "q = p")
      case True
      have "map_ids s j \<noteq> Some p" using mi pn by (simp add: map_inv_def)
      then show ?thesis using True idp by (auto simp: m' h')
    next
      case False
      have "map_ids s j = Some q \<longleftrightarrow> q \<in> set (heap s) \<and> id_node (node_at s q) = j"
        using mi by (simp add: map_inv_def)
      then show ?thesis using False ido [OF False] old [of q] by (auto simp: m' h')
    qed
  qed
  moreover have "alloc_inv s'" using al su(9) by (auto simp: alloc_inv_def h' p_def)
  moreover have "ids_inv s'"
    unfolding ids_inv_def
  proof
    fix q assume "q \<in> set (heap s')"
    then consider "q = p" | "q \<noteq> p" "q \<in> set (heap s)" using h' by auto
    then show "sint (id_node (node_at s' q)) \<le> sint (count s')"
    proof cases
      case 1
      then show ?thesis using idp su(8) i by simp
    next
      case 2
      then have "sint (id_node (node_at s q)) \<le> sint (count s)" using ii by (simp add: ids_inv_def)
      then show ?thesis using ido [OF 2(1)] su(8) si i by simp
    qed
  qed
  ultimately show "timer_inv s'" using su(2) by (simp add: timer_inv_def)
  show "map_ids s i = None" by (rule fresh)
  show "map_ids s' i = Some (next_addr s)" by (simp add: m' p_def)
  show "sint i = sint (count s) + 1" by (rule si)
qed

lemma timer_inv_delNode:
  assumes inv: "timer_inv s" and p: "p \<in> set (heap s)"
  shows "timer_inv (delNode p s)"
proof -
  have hi: "heap_inv s" and mi: "map_inv s" and al: "alloc_inv s" and ii: "ids_inv s"
    using inv by (simp_all add: timer_inv_def)
  note su = delNode_summary [OF hi p]
  define s' where "s' = delNode p s"
  note su' = su [folded s'_def]
  have ido: "id_node (node_at s' q) = id_node (node_at s q)" if "q \<noteq> p" for q
    using strip_eq_fields(1) [OF su'(3)] that by simp
  have "map_inv s'"
    unfolding map_inv_def
  proof (intro allI)
    fix j q
    have a: "map_ids s j = Some q \<longleftrightarrow> q \<in> set (heap s) \<and> id_node (node_at s q) = j"
      using mi by (simp add: map_inv_def)
    have b: "map_ids s (id_node (node_at s p)) = Some p" using mi p by (simp add: map_inv_def)
    show "map_ids s' j = Some q \<longleftrightarrow> q \<in> set (heap s') \<and> id_node (node_at s' q) = j"
    proof (cases "q = p")
      case True
      have "map_ids s' j \<noteq> Some p" using a [of ] True mi unfolding su'(5)
        by (auto simp: map_inv_def)
      then show ?thesis using True su'(2) by simp
    next
      case False
      show ?thesis using a b False ido [OF False] unfolding su'(5) su'(2) by auto
    qed
  qed
  moreover have "alloc_inv s'" using al su'(2,7) by (auto simp: alloc_inv_def)
  moreover have "ids_inv s'" using ii su'(2,6) ido by (auto simp: ids_inv_def)
  ultimately show ?thesis using su'(1) by (simp add: timer_inv_def s'_def)
qed

lemma timer_inv_readd:
  assumes inv: "timer_inv s" and p: "p \<in> set (heap s)" and c: "sint (count s) < 2147483647"
    and r: "addTimer_node p (removeNode p s) = (i, s')"
  shows "timer_inv s'" "map_ids s' i = Some p" "map_ids s' (id_node (node_at s p)) = None"
    "sint i = sint (count s) + 1"
proof -
  have hi: "heap_inv s" and mi: "map_inv s" and al: "alloc_inv s" and ii: "ids_inv s"
    using inv by (simp_all add: timer_inv_def)
  note su = readd_summary [OF hi p r]
  define old where "old = id_node (node_at s p)"
  have i: "i = count s + 1" by (rule su(1))
  have fresh: "map_ids s i = None" unfolding i by (rule ids_fresh [OF mi ii c])
  have si: "sint i = sint (count s) + 1" unfolding i by (rule sint_succ [OF c])
  have oldb: "id_node (node_at s q) \<noteq> i" if "q \<in> set (heap s)" for q
    using ii that si by (auto simp: ids_inv_def)
  have oi: "old \<noteq> i" using oldb [OF p] by (simp add: old_def)
  have m': "map_ids s' = (map_ids s)(old := None, i \<mapsto> p)"
    using su(6) fresh by (simp add: map_insert_fresh i old_def)
  have h': "set (heap s') = set (heap s)" by (rule su(3))
  have idp: "id_node (node_at s' p) = i"
    using strip_some_fields(1) [OF su(5)] by (simp add: i)
  have ido: "id_node (node_at s' q) = id_node (node_at s q)" if "q \<noteq> p" for q
    using strip_eq_fields(1) [OF su(4)] that by simp
  have a: "map_ids s j = Some q \<longleftrightarrow> q \<in> set (heap s) \<and> id_node (node_at s q) = j" for j q
    using mi by (simp add: map_inv_def)
  have "map_inv s'"
    unfolding map_inv_def
  proof (intro allI)
    fix j q
    show "map_ids s' j = Some q \<longleftrightarrow> q \<in> set (heap s') \<and> id_node (node_at s' q) = j"
    proof (cases "q = p")
      case True
      have "map_ids s j = Some p \<longleftrightarrow> j = old" using a [of j p] p by (auto simp: old_def)
      then show ?thesis using True idp p oi by (auto simp: m' h')
    next
      case False
      have "q \<in> set (heap s) \<Longrightarrow> id_node (node_at s q) \<noteq> old"
        using a [of old q] a [of old p] p False by (auto simp: old_def)
      then show ?thesis using a [of j q] False ido [OF False] oldb [of q] by (auto simp: m' h')
    qed
  qed
  moreover have "alloc_inv s'" using al su(8) by (auto simp: alloc_inv_def h')
  moreover have "ids_inv s'"
    unfolding ids_inv_def
  proof
    fix q assume q: "q \<in> set (heap s')"
    show "sint (id_node (node_at s' q)) \<le> sint (count s')"
    proof (cases "q = p")
      case True
      then show ?thesis using idp su(7) i by simp
    next
      case False
      have "sint (id_node (node_at s q)) \<le> sint (count s)" using ii q h' by (simp add: ids_inv_def)
      then show ?thesis using ido [OF False] su(7) si i by simp
    qed
  qed
  ultimately show "timer_inv s'" using su(2) by (simp add: timer_inv_def)
  show "map_ids s' i = Some p" by (simp add: m')
  show "map_ids s' (id_node (node_at s p)) = None" using oi by (simp add: m' old_def)
  show "sint i = sint (count s) + 1" by (rule si)
qed

lemma fired_update_inv [simp]:
  "heap_inv (s\<lparr>fired := x\<rparr>) = heap_inv s" "timer_inv (s\<lparr>fired := x\<rparr>) = timer_inv s"
  by (simp_all add: timer_inv_def heap_inv_def idx_ok_def map_inv_def alloc_inv_def ids_inv_def
      keys_def node_at_def)

lemma call_fb_simps [simp]:
  "heap (call_fb p s) = heap s" "store (call_fb p s) = store s" "map_ids (call_fb p s) = map_ids s"
  "count (call_fb p s) = count s" "next_addr (call_fb p s) = next_addr s"
  "clock (call_fb p s) = clock s" "reads (call_fb p s) = reads s"
  "node_at (call_fb p s) q = node_at s q"
  "heap_inv (call_fb p s) = heap_inv s" "timer_inv (call_fb p s) = timer_inv s"
  by (simp_all add: call_fb_def node_at_def)

lemma fired_call_fb:
  "fired (call_fb p s) = fired s @ (if fb (node_at s p) then [(p, node_at s p)] else [])"
  by (simp add: call_fb_def)

lemma expire_node_oneshot:
  "\<not> is_loop (node_at s p) \<Longrightarrow> expire_node p s = delNode p (call_fb p s)"
  by (simp add: expire_node_def Let_def)

lemma expire_node_loop:
  "is_loop (node_at s p) \<Longrightarrow> expire_node p s = snd (addTimer_node p (removeNode p (call_fb p s)))"
  by (simp add: expire_node_def Let_def)

lemma timer_inv_expire_node_aux:
  assumes inv: "timer_inv s" and p: "p \<in> set (heap s)" and c: "sint (count s) < 2147483647"
  shows "timer_inv (expire_node p s) \<and>
    sint (count s) \<le> sint (count (expire_node p s)) \<and>
    sint (count (expire_node p s)) \<le> sint (count s) + 1"
proof (cases "is_loop (node_at s p)")
  case False
  have hi: "heap_inv s" using inv by (simp add: timer_inv_def)
  have "timer_inv (delNode p (call_fb p s))" by (rule timer_inv_delNode) (use inv p in simp_all)
  moreover have "count (delNode p (call_fb p s)) = count s"
    using delNode_summary(6) [of "call_fb p s" p] hi p by simp
  ultimately show ?thesis using False by (simp add: expire_node_oneshot)
next
  case True
  have hi: "heap_inv s" using inv by (simp add: timer_inv_def)
  obtain i s' where r: "addTimer_node p (removeNode p (call_fb p s)) = (i, s')"
    by (cases "addTimer_node p (removeNode p (call_fb p s))")
  have e: "expire_node p s = s'" using True r by (simp add: expire_node_loop)
  have "timer_inv s'" by (rule timer_inv_readd(1) [OF _ _ _ r]) (use inv p c in simp_all)
  moreover have "count s' = count s + 1"
    using readd_summary(7) [OF _ _ r] hi p by simp
  ultimately show ?thesis using sint_succ [OF c] by (simp add: e)
qed

lemma timer_inv_expire_node:
  assumes inv: "timer_inv s" and p: "p \<in> set (heap s)" and c: "sint (count s) < 2147483647"
  shows "timer_inv (expire_node p s)"
    "sint (count s) \<le> sint (count (expire_node p s))"
    "sint (count (expire_node p s)) \<le> sint (count s) + 1"
  using timer_inv_expire_node_aux [OF assms] by simp_all

lemma hd_in_heap: "heap s \<noteq> [] \<Longrightarrow> hd (heap s) \<in> set (heap s)"
  by simp

lemma timer_inv_expire_loop:
  "timer_inv s \<Longrightarrow> heap s \<noteq> [] \<Longrightarrow> sint (count s) + int fuel \<le> 2147483647 \<Longrightarrow>
   expire_loop fuel now s = Some s' \<Longrightarrow>
   timer_inv s' \<and> sint (count s) \<le> sint (count s') \<and> sint (count s') \<le> sint (count s) + int fuel"
proof (induction fuel arbitrary: s)
  case 0
  then show ?case by simp
next
  case (Suc n)
  define p where "p = hd (heap s)"
  have p: "p \<in> set (heap s)" using Suc.prems(2) by (simp add: p_def)
  show ?case
  proof (cases "now < expire_ms (node_at s p)")
    case True
    then have "s' = s" using Suc.prems(4) by (simp add: p_def Let_def)
    then show ?thesis using Suc.prems(1) by simp
  next
    case False
    define s1 where "s1 = expire_node p s"
    have c: "sint (count s) < 2147483647" using Suc.prems(3) by simp
    note st = timer_inv_expire_node [OF Suc.prems(1) p c, folded s1_def]
    show ?thesis
    proof (cases "heap s1 = []")
      case True
      then have "s' = s1" using Suc.prems(4) False by (simp add: p_def Let_def s1_def)
      then show ?thesis using st by simp
    next
      case False
      note ne = this
      have r: "expire_loop n now s1 = Some s'"
        using Suc.prems(4) \<open>\<not> now < expire_ms (node_at s p)\<close> ne
        by (simp add: p_def Let_def s1_def)
      have "sint (count s1) + int n \<le> 2147483647" using st(3) Suc.prems(3) by simp
      from Suc.IH [OF st(1) ne this r] show ?thesis using st by simp
    qed
  qed
qed

lemma reads_update_inv [simp]:
  "heap_inv (s\<lparr>reads := x\<rparr>) = heap_inv s" "timer_inv (s\<lparr>reads := x\<rparr>) = timer_inv s"
  by (simp_all add: timer_inv_def heap_inv_def idx_ok_def map_inv_def alloc_inv_def ids_inv_def
      keys_def node_at_def)

lemma timer_inv_DelTimer:
  assumes "timer_inv s"
  shows "timer_inv (snd (DelTimer i s))" "count (snd (DelTimer i s)) = count s"
proof -
  show "timer_inv (snd (DelTimer i s))"
  proof (cases "map_ids s i")
    case None
    then show ?thesis using assms by (simp add: DelTimer_unknown)
  next
    case (Some p)
    then have "p \<in> set (heap s)" using assms by (simp add: timer_inv_def map_inv_def)
    then show ?thesis using Some timer_inv_delNode [OF assms] by (simp add: DelTimer_found)
  qed
  show "count (snd (DelTimer i s)) = count s"
  proof (cases "map_ids s i")
    case None
    then show ?thesis by (simp add: DelTimer_unknown)
  next
    case (Some p)
    then have "p \<in> set (heap s)" using assms by (simp add: timer_inv_def map_inv_def)
    then show ?thesis using Some delNode_summary(6) [of s p] assms
      by (simp add: DelTimer_found timer_inv_def)
  qed
qed

lemma timer_inv_ExpireTimer:
  assumes "timer_inv s" "sint (count s) + int fuel \<le> 2147483647" "ExpireTimer fuel s = Some s'"
  shows "timer_inv s' \<and> sint (count s) \<le> sint (count s') \<and> sint (count s') \<le> sint (count s) + int fuel"
proof (cases "heap s = []")
  case True
  then show ?thesis using assms by (simp add: ExpireTimer_def)
next
  case False
  define t where "t = s\<lparr>reads := Suc (reads s)\<rparr>"
  have r: "expire_loop fuel (clock s (reads s)) t = Some s'"
    using assms(3) False by (simp add: ExpireTimer_def CurrentTime_ms_def t_def)
  have "timer_inv t" "heap t \<noteq> []" "sint (count t) + int fuel \<le> 2147483647"
    using assms False by (simp_all add: t_def)
  from timer_inv_expire_loop [OF this r] show ?thesis by (simp add: t_def)
qed

lemma timer_inv_apply_op:
  assumes "timer_inv s" "sint (count s) + int (mints x) \<le> 2147483647" "apply_op x s = Some s'"
  shows "timer_inv s' \<and> sint (count s) \<le> sint (count s') \<and> sint (count s') \<le> sint (count s) + int (mints x)"
proof (cases x)
  case (Schedule timing d f l)
  obtain i where r: "addTimer timing d f l s = (i, s')"
    using assms(3) Schedule by (cases "addTimer timing d f l s") (simp add: AddTimer_def)
  have c: "sint (count s) < 2147483647" using assms(2) Schedule by simp
  have "count s' = count s + 1" using addTimer_summary(8) [OF _ _ r] assms(1) by (simp add: timer_inv_def)
  then show ?thesis using timer_inv_addTimer(1) [OF assms(1) c r] sint_succ [OF c] Schedule by simp
next
  case (Cancel i)
  then show ?thesis using timer_inv_DelTimer [OF assms(1), of i] assms(3) by auto
next
  case (Sweep fuel)
  then show ?thesis using timer_inv_ExpireTimer [of s fuel s'] assms by simp
qed

lemma timer_inv_run:
  "timer_inv s \<Longrightarrow> sint (count s) + int (sum_list (map mints ops)) \<le> 2147483647 \<Longrightarrow>
   run ops s = Some s' \<Longrightarrow> timer_inv s'"
proof (induction ops arbitrary: s)
  case Nil
  then show ?case by simp
next
  case (Cons x xs)
  obtain s1 where s1: "apply_op x s = Some s1" and r: "run xs s1 = Some s'"
    using Cons.prems(3) by (cases "apply_op x s") simp_all
  have b: "sint (count s) + int (mints x) \<le> 2147483647" using Cons.prems(2) by simp
  note st = timer_inv_apply_op [OF Cons.prems(1) b s1]
  have "sint (count s1) + int (sum_list (map mints xs)) \<le> 2147483647"
    using st Cons.prems(2) by simp
  then show ?case using Cons.IH [OF _ _ r] st by simp
qed


subsection \<open>Casts between the two word sizes, and the counter over a sequence of calls\<close>

lemma uint_scast_nonneg:
  assumes "0 \<le> sint (m :: 32 word)"
  shows "uint (scast m :: 64 word) = sint m"
proof -
  have "sint m < 2 ^ 31" using sint_lt [of m] by simp
  also have "(2::int) ^ 31 < 2 ^ LENGTH(64)" by simp
  finally have "take_bit LENGTH(64) (sint m) = sint m"
    using assms by (intro take_bit_int_eq_self)
  moreover have "uint (scast m :: 64 word) = take_bit LENGTH(64) (sint m)"
    by (simp only: scast_eq uint_word_of_int_eq)
  ultimately show ?thesis by (simp only:)
qed

lemma min_shrinks:
  assumes m: "0 \<le> sint (m :: 32 word)" and lt: "(t :: 64 word) < scast m"
  shows "sint (ucast t :: 32 word) = uint t" "uint t < sint m"
proof -
  show u: "uint t < sint m" using lt uint_scast_nonneg [OF m] by (simp only: word_less_def)
  have "sint m < 2 ^ 31" using sint_lt [of m] by simp
  then have b: "uint t < 2 ^ 31" using u by simp
  have "- (2 ^ 31) \<le> (0::int)" by simp
  then have "- (2 ^ 31) \<le> uint t" using uint_ge_0 [of t] by (rule order_trans)
  then have "signed_take_bit 31 (uint t) = uint t"
    using b by (rule signed_take_bit_int_eq_self)
  moreover have "sint (ucast t :: 32 word) = signed_take_bit (LENGTH(32) - 1) (uint t)"
    by (simp only: ucast_eq sint_sbintrunc')
  moreover have "LENGTH(32) - 1 = (31::nat)" by simp
  ultimately show "sint (ucast t :: 32 word) = uint t" by (simp only:)
qed

lemma run_count_bounds:
  "timer_inv s \<Longrightarrow> sint (count s) + int (sum_list (map mints ops)) \<le> 2147483647 \<Longrightarrow>
   run ops s = Some s' \<Longrightarrow>
   sint (count s) \<le> sint (count s') \<and> sint (count s') \<le> sint (count s) + int (sum_list (map mints ops))"
proof (induction ops arbitrary: s)
  case Nil
  then show ?case by simp
next
  case (Cons x xs)
  obtain s1 where s1: "apply_op x s = Some s1" and r: "run xs s1 = Some s'"
    using Cons.prems(3) by (cases "apply_op x s") simp_all
  have b: "sint (count s) + int (mints x) \<le> 2147483647" using Cons.prems(2) by simp
  note st = timer_inv_apply_op [OF Cons.prems(1) b s1]
  have "sint (count s1) + int (sum_list (map mints xs)) \<le> 2147483647"
    using st Cons.prems(2) by simp
  then show ?case using Cons.IH [OF _ _ r] st by simp
qed

lemma timer_inv_engine_A: "timer_inv engine_A"
  by (simp add: engine_A_def timer_inv_init)

lemma count_engine_A: "count engine_A = 0"
  by (simp add: engine_A_def MinHeapTimer_init_def)

lemma timer_inv_engine_B: "timer_inv engine_B"
proof -
  have "run [Schedule 50 () True False, Schedule 10 () True False] engine_A = Some engine_B"
    by (simp add: engine_B_def)
  then show ?thesis
    by (rule timer_inv_run [OF timer_inv_engine_A, rotated]) (simp add: count_engine_A)
qed


lemma engine_B_ids: "map_ids engine_B 7 = None \<and> map_ids engine_B 1 = Some 0 \<and> heap engine_B = [1, 0]
  \<and> \<not> is_loop (node_at engine_B 1) \<and> id_node (node_at engine_B 1) = 2"
  by code_simp

lemma engine_A_ids:
  "fst (AddTimer 50 () True False engine_A) = 1 \<and>
   fst (AddTimer 10 () True False (snd (DelTimer 1 (snd (AddTimer 50 () True False engine_A))))) = 2"
  by code_simp




lemma driver_A_eval:
  "(case loop_body 1 driver_A of None \<Rightarrow> False | Some (ms, L') \<Rightarrow> ms = 100) \<and>
   sint (min_timing_time_ms driver_A) = 1000 \<and>
   sint (min_timing_time_ms (snd (addTimer_Loop 5 () True False driver_A))) = 5 \<and>
   (case loop_body 1 (snd (addTimer_Loop 5 () True False driver_A)) of None \<Rightarrow> False
    | Some (ms, L') \<Rightarrow> ms = 0)"
  by code_simp

lemma timer_inv_engine_C: "timer_inv engine_C"
proof -
  have "run [Schedule 20 () True True] (MinHeapTimer_init clock_C) = Some engine_C"
    by (simp add: engine_C_def)
  then show ?thesis
    by (rule timer_inv_run [OF timer_inv_init, rotated]) (simp add: MinHeapTimer_init_def)
qed

lemma engine_C_eval:
  "heap engine_C = [0] \<and> is_loop (node_at engine_C 0) \<and> count engine_C = 1 \<and>
   id_node (node_at engine_C 0) = 1 \<and> map_ids engine_C 1 = Some 0 \<and>
   clock engine_C (reads engine_C) = 20 \<and> timing_time_ms (node_at engine_C 0) = 20 \<and>
   expire_ms (node_at engine_C 0) = 20"
  by code_simp

subsection \<open>One firing\<close>

lemma root_min:
  assumes inv: "heap_inv s" and q: "q \<in> set (heap s)"
  shows "expire_ms (node_at s (hd (heap s))) \<le> expire_ms (node_at s q)"
proof -
  have hb: "heap_below (keys s) (length (heap s))" using inv by (simp add: heap_inv_def)
  have k: "keys s ! 0 \<le> keys s ! j" if "j < length (heap s)" for j
    using that
  proof (induction j rule: less_induct)
    case (less j)
    show ?case
    proof (cases "j = 0")
      case True
      then show ?thesis by simp
    next
      case False
      then have j0: "0 < j" by simp
      have pl: "parent_of j < j" using parent_of_less [OF j0] .
      have "keys s ! 0 \<le> keys s ! (parent_of j)" using less.IH [OF pl] pl less.prems by simp
      moreover have "keys s ! (parent_of j) \<le> keys s ! j"
        using hb j0 less.prems unfolding heap_below_def by blast
      ultimately show ?thesis by (rule order_trans)
    qed
  qed
  obtain j where j: "j < length (heap s)" "heap s ! j = q" using q by (metis in_set_conv_nth)
  have ne: "heap s \<noteq> []" using q by auto
  have "keys s ! 0 = expire_ms (node_at s (hd (heap s)))" using ne by (simp add: keys_def hd_conv_nth)
  moreover have "keys s ! j = expire_ms (node_at s q)" using j by (simp add: keys_def)
  ultimately show ?thesis using k [OF j(1)] by simp
qed

text \<open>What one firing does, for a node in the heap.\<close>

lemma expire_node_effect:
  assumes inv: "heap_inv s" and p: "p \<in> set (heap s)"
  shows "heap_inv (expire_node p s)"
    "fired (expire_node p s) = fired s @ (if fb (node_at s p) then [(p, node_at s p)] else [])"
    "\<And>q. q \<noteq> p \<Longrightarrow>
       map_option strip_idx (store (expire_node p s) q) = map_option strip_idx (store s q)"
    "clock (expire_node p s) = clock s" "next_addr (expire_node p s) = next_addr s"
    "\<not> is_loop (node_at s p) \<Longrightarrow>
       set (heap (expire_node p s)) = set (heap s) - {p} \<and> reads (expire_node p s) = reads s \<and>
       store (expire_node p s) p = None"
    "is_loop (node_at s p) \<Longrightarrow>
       set (heap (expire_node p s)) = set (heap s) \<and> reads (expire_node p s) = Suc (reads s) \<and>
       expire_ms (node_at (expire_node p s) p) = clock s (reads s) + timing_time_ms (node_at s p) \<and>
       timing_time_ms (node_at (expire_node p s) p) = timing_time_ms (node_at s p) \<and>
       is_loop (node_at (expire_node p s) p) \<and>
       fb (node_at (expire_node p s) p) = fb (node_at s p)"
proof -
  have inv': "heap_inv (call_fb p s)" "p \<in> set (heap (call_fb p s))" using assms by simp_all
  have a: "heap_inv (expire_node p s) \<and>
    fired (expire_node p s) = fired s @ (if fb (node_at s p) then [(p, node_at s p)] else []) \<and>
    (\<forall>q. q \<noteq> p \<longrightarrow>
       map_option strip_idx (store (expire_node p s) q) = map_option strip_idx (store s q)) \<and>
    clock (expire_node p s) = clock s \<and> next_addr (expire_node p s) = next_addr s \<and>
    (\<not> is_loop (node_at s p) \<longrightarrow>
       set (heap (expire_node p s)) = set (heap s) - {p} \<and> reads (expire_node p s) = reads s \<and>
       store (expire_node p s) p = None) \<and>
    (is_loop (node_at s p) \<longrightarrow>
       set (heap (expire_node p s)) = set (heap s) \<and> reads (expire_node p s) = Suc (reads s) \<and>
       expire_ms (node_at (expire_node p s) p) = clock s (reads s) + timing_time_ms (node_at s p) \<and>
       timing_time_ms (node_at (expire_node p s) p) = timing_time_ms (node_at s p) \<and>
       is_loop (node_at (expire_node p s) p) \<and>
       fb (node_at (expire_node p s) p) = fb (node_at s p))"
  proof (cases "is_loop (node_at s p)")
    case False
    note su = delNode_summary [OF inv']
    have e: "expire_node p s = delNode p (call_fb p s)" using False by (simp add: expire_node_oneshot)
    show ?thesis unfolding e using su False by (simp add: fired_call_fb)
  next
    case True
    obtain i s' where r: "addTimer_node p (removeNode p (call_fb p s)) = (i, s')"
      by (cases "addTimer_node p (removeNode p (call_fb p s))")
    have e: "expire_node p s = s'" using True r by (simp add: expire_node_loop)
    note su = readd_summary [OF inv' r]
    note f = strip_some_fields [OF su(5)]
    show ?thesis unfolding e using su(2,3,4,8,9,10,11) f True
      by (simp add: fired_call_fb strip_idx_def)
  qed
  show "heap_inv (expire_node p s)"
    "fired (expire_node p s) = fired s @ (if fb (node_at s p) then [(p, node_at s p)] else [])"
    "\<And>q. q \<noteq> p \<Longrightarrow>
       map_option strip_idx (store (expire_node p s) q) = map_option strip_idx (store s q)"
    "clock (expire_node p s) = clock s" "next_addr (expire_node p s) = next_addr s"
    "\<not> is_loop (node_at s p) \<Longrightarrow>
       set (heap (expire_node p s)) = set (heap s) - {p} \<and> reads (expire_node p s) = reads s \<and>
       store (expire_node p s) p = None"
    "is_loop (node_at s p) \<Longrightarrow>
       set (heap (expire_node p s)) = set (heap s) \<and> reads (expire_node p s) = Suc (reads s) \<and>
       expire_ms (node_at (expire_node p s) p) = clock s (reads s) + timing_time_ms (node_at s p) \<and>
       timing_time_ms (node_at (expire_node p s) p) = timing_time_ms (node_at s p) \<and>
       is_loop (node_at (expire_node p s) p) \<and>
       fb (node_at (expire_node p s) p) = fb (node_at s p)"
    using a by blast+
qed

subsection \<open>The firing order of one-shot timers\<close>

lemma order_inv_reads [simp]: "order_inv k (s\<lparr>reads := x\<rparr>) = order_inv k s"
  by (simp add: order_inv_def node_at_def)

lemma order_inv_step:
  assumes inv: "order_inv k s" and ne: "heap s \<noteq> []"
  shows "order_inv k (expire_node (hd (heap s)) s)"
proof -
  define p where "p = hd (heap s)"
  define s' where "s' = expire_node p s"
  have hi: "heap_inv s" and os: "\<And>q. q \<in> set (heap s) \<Longrightarrow> \<not> is_loop (node_at s q)"
    and k: "k \<le> length (fired s)"
    and so: "sorted (map (expire_ms \<circ> snd) (drop k (fired s)))"
    and le: "\<And>e q. e \<in> set (drop k (fired s)) \<Longrightarrow> q \<in> set (heap s)
        \<Longrightarrow> expire_ms (snd e) \<le> expire_ms (node_at s q)"
    using inv by (simp_all add: order_inv_def)
  have p: "p \<in> set (heap s)" using ne by (simp add: p_def)
  note ef = expire_node_effect [OF hi p, folded s'_def]
  have h': "set (heap s') = set (heap s) - {p}" using ef(6) os [OF p] by simp
  have same: "expire_ms (node_at s' q) = expire_ms (node_at s q)"
    "is_loop (node_at s' q) = is_loop (node_at s q)" if "q \<noteq> p" for q
    using strip_eq_fields(2,4) [OF ef(3) [OF that]] by simp_all
  have rm: "expire_ms (node_at s p) \<le> expire_ms (node_at s q)" if "q \<in> set (heap s)" for q
    using root_min [OF hi that] by (simp add: p_def)
  define new where "new = (if fb (node_at s p) then [(p, node_at s p)] else [])"
  have f': "drop k (fired s') = drop k (fired s) @ new" using ef(2) k by (simp add: new_def)
  have newle: "expire_ms (snd e) \<le> expire_ms (node_at s q)"
    if "e \<in> set new" "q \<in> set (heap s)" for e q
    using that rm by (auto simp: new_def split: if_splits)
  have "sorted (map (expire_ms \<circ> snd) (drop k (fired s) @ new))"
    using so le [OF _ p] by (auto simp: new_def sorted_append)
  moreover have "expire_ms (snd e) \<le> expire_ms (node_at s' q)"
    if "e \<in> set (drop k (fired s) @ new)" "q \<in> set (heap s')" for e q
  proof -
    have q: "q \<in> set (heap s)" "q \<noteq> p" using that(2) h' by auto
    have "e \<in> set (drop k (fired s)) \<or> e \<in> set new" using that(1) by simp
    then have "expire_ms (snd e) \<le> expire_ms (node_at s q)" using le newle q(1) by blast
    then show ?thesis using same(1) [OF q(2)] by simp
  qed
  moreover have "\<not> is_loop (node_at s' q)" if "q \<in> set (heap s')" for q
    using that h' same(2) [of q] os [of q] by auto
  moreover have "k \<le> length (fired s')" using k ef(2) by simp
  ultimately have "order_inv k s'" unfolding order_inv_def f' using ef(1) by blast
  then show ?thesis by (simp add: s'_def p_def)
qed

lemma order_inv_expire_loop:
  "order_inv k s \<Longrightarrow> heap s \<noteq> [] \<Longrightarrow> expire_loop fuel now s = Some s' \<Longrightarrow> order_inv k s'"
proof (induction fuel arbitrary: s)
  case 0
  then show ?case by simp
next
  case (Suc n)
  define s1 where "s1 = expire_node (hd (heap s)) s"
  have i1: "order_inv k s1" using order_inv_step [OF Suc.prems(1,2)] by (simp add: s1_def)
  show ?case
  proof (cases "now < expire_ms (node_at s (hd (heap s)))")
    case True
    then have "s' = s" using Suc.prems(3) by (simp add: Let_def)
    then show ?thesis using Suc.prems(1) by simp
  next
    case False
    show ?thesis
    proof (cases "heap s1 = []")
      case True
      then have "s' = s1" using Suc.prems(3) False by (simp add: Let_def s1_def)
      then show ?thesis using i1 by simp
    next
      case ne: False
      have "expire_loop n now s1 = Some s'"
        using Suc.prems(3) False ne by (simp add: Let_def s1_def)
      then show ?thesis using Suc.IH [OF i1 ne] by simp
    qed
  qed
qed

lemma order_inv_ExpireTimer:
  assumes "order_inv k s" "ExpireTimer fuel s = Some s'"
  shows "order_inv k s'"
proof (cases "heap s = []")
  case True
  then show ?thesis using assms by (simp add: ExpireTimer_def)
next
  case False
  define t where "t = s\<lparr>reads := Suc (reads s)\<rparr>"
  have "expire_loop fuel (clock s (reads s)) t = Some s'"
    using assms(2) False by (simp add: ExpireTimer_def CurrentTime_ms_def t_def)
  moreover have "order_inv k t" "heap t \<noteq> []" using assms(1) False by (simp_all add: t_def)
  ultimately show ?thesis using order_inv_expire_loop by blast
qed

lemma order_inv_sweeps:
  "order_inv k s \<Longrightarrow> run (map Sweep fuels) s = Some s' \<Longrightarrow> order_inv k s'"
proof (induction fuels arbitrary: s)
  case Nil
  then show ?case by simp
next
  case (Cons x xs)
  obtain s1 where s1: "ExpireTimer x s = Some s1" and r: "run (map Sweep xs) s1 = Some s'"
    using Cons.prems(2) by (cases "apply_op (Sweep x) s") simp_all
  show ?case using Cons.IH [OF order_inv_ExpireTimer [OF Cons.prems(1) s1] r] .
qed

lemma timer_inv_engine_S: "timer_inv engine_S"
proof -
  have "run [Schedule 50 () True False, Schedule 10 () True False, Schedule 30 () True False]
      (MinHeapTimer_init clock_S) = Some engine_S"
    by (simp add: engine_S_def)
  then show ?thesis
    by (rule timer_inv_run [OF timer_inv_init, rotated]) (simp add: MinHeapTimer_init_def)
qed

lemma engine_S_eval:
  "heap engine_S = [1, 0, 2] \<and> fired engine_S = [] \<and>
   \<not> is_loop (node_at engine_S 0) \<and> \<not> is_loop (node_at engine_S 1) \<and> \<not> is_loop (node_at engine_S 2) \<and>
   map_option (map (expire_ms \<circ> snd) \<circ> fired) (run (map Sweep [4, 4, 4]) engine_S) = Some [10, 30, 50] \<and>
   map_option (map fst \<circ> fired) (run (map Sweep [4]) engine_S) = Some [1] \<and>
   map_option (map fst \<circ> fired) (run (map Sweep [4, 4]) engine_S) = Some [1, 2] \<and>
   map_option (map fst \<circ> fired) (run (map Sweep [4, 4, 4]) engine_S) = Some [1, 2, 0]"
  by code_simp

subsection \<open>A node that has been removed\<close>

lemma absent_inv_reads [simp]: "absent_inv p k (s\<lparr>reads := x\<rparr>) = absent_inv p k s"
  by (simp add: absent_inv_def)






subsection \<open>The sweep loop\<close>


lemma finite_due [simp]: "finite (due now s)"
  by (simp add: due_def)

lemma due_empty: 
  assumes "heap_inv s" "heap s \<noteq> []" "now < expire_ms (node_at s (hd (heap s)))"
  shows "due now s = {}"
proof -
  have "now < expire_ms (node_at s q)" if "q \<in> set (heap s)" for q
    using root_min [OF assms(1) that] assms(3) by simp
  then have "\<not> expire_ms (node_at s q) \<le> now" if "q \<in> set (heap s)" for q
    using that by (simp add: not_le)
  then show ?thesis by (auto simp: due_def)
qed

lemma sweep_step:
  assumes hi: "heap_inv s" and ne: "heap s \<noteq> []" and ll: "lands_later now s"
    and du: "\<not> now < expire_ms (node_at s (hd (heap s)))"
  shows "heap_inv (expire_node (hd (heap s)) s)"
    "lands_later now (expire_node (hd (heap s)) s)"
    "due now (expire_node (hd (heap s)) s) = due now s - {hd (heap s)}"
    "hd (heap s) \<in> due now s"
    "\<And>q. q \<in> due now s \<Longrightarrow> q \<noteq> hd (heap s) \<Longrightarrow>
       fb (node_at (expire_node (hd (heap s)) s) q) = fb (node_at s q) \<and>
       expire_ms (node_at (expire_node (hd (heap s)) s) q) = expire_ms (node_at s q)"
proof -
  define p where "p = hd (heap s)"
  define s' where "s' = expire_node p s"
  have p: "p \<in> set (heap s)" using ne by (simp add: p_def)
  note ef = expire_node_effect [OF hi p, folded s'_def]
  have same: "expire_ms (node_at s' q) = expire_ms (node_at s q)"
    "is_loop (node_at s' q) = is_loop (node_at s q)"
    "timing_time_ms (node_at s' q) = timing_time_ms (node_at s q)"
    "fb (node_at s' q) = fb (node_at s q)" if "q \<noteq> p" for q
    using strip_eq_fields(2,4,3,5) [OF ef(3) [OF that]] by simp_all
  have pd: "expire_ms (node_at s p) \<le> now" using du by (simp add: p_def)
  have sub: "set (heap s') \<subseteq> set (heap s)" using ef(6,7) by (cases "is_loop (node_at s p)") auto
  have rd: "reads s \<le> reads s'" using ef(6,7) by (cases "is_loop (node_at s p)") auto
  have lp: "is_loop (node_at s q) \<and>
      timing_time_ms (node_at s' q) = timing_time_ms (node_at s q)"
    if "q \<in> set (heap s')" "is_loop (node_at s' q)" for q
  proof (cases "q = p")
    case True
    have "is_loop (node_at s p)" using that(1) True ef(6) by auto
    then show ?thesis using True ef(7) by simp
  next
    case False
    then show ?thesis using same that(2) by simp
  qed
  have ll': "lands_later now s'"
    unfolding lands_later_def
  proof (intro ballI impI allI)
    fix q k assume q: "q \<in> set (heap s')" and l: "is_loop (node_at s' q)" and k: "reads s' \<le> k"
    have "q \<in> set (heap s)" using q sub by auto
    moreover have "reads s \<le> k" using k rd by simp
    ultimately have "now < clock s k + timing_time_ms (node_at s q)"
      using ll lp [OF q l] by (simp add: lands_later_def)
    then show "now < clock s' k + timing_time_ms (node_at s' q)" using lp [OF q l] ef(4) by simp
  qed
  have d': "due now s' = due now s - {p}"
  proof (cases "is_loop (node_at s p)")
    case False
    have "set (heap s') = set (heap s) - {p}" using ef(6) False by simp
    then show ?thesis using same(1) by (auto simp: due_def)
  next
    case True
    have h: "set (heap s') = set (heap s)" using ef(7) True by simp
    have "now < clock s (reads s) + timing_time_ms (node_at s p)"
      using ll p True by (simp add: lands_later_def)
    then have np: "\<not> expire_ms (node_at s' p) \<le> now" using ef(7) True by simp
    have "q \<in> due now s' \<longleftrightarrow> q \<in> due now s - {p}" for q
    proof (cases "q = p")
      case True
      then show ?thesis using np by (simp add: due_def)
    next
      case False
      then show ?thesis using same(1) [OF False] h by (simp add: due_def)
    qed
    then show ?thesis by blast
  qed
  show "heap_inv (expire_node (hd (heap s)) s)" using ef(1) by (simp add: s'_def p_def)
  show "lands_later now (expire_node (hd (heap s)) s)" using ll' by (simp add: s'_def p_def)
  show "due now (expire_node (hd (heap s)) s) = due now s - {hd (heap s)}"
    using d' by (simp add: s'_def p_def)
  show "hd (heap s) \<in> due now s" using p pd by (simp add: due_def p_def)
  show "\<And>q. q \<in> due now s \<Longrightarrow> q \<noteq> hd (heap s) \<Longrightarrow>
       fb (node_at (expire_node (hd (heap s)) s) q) = fb (node_at s q) \<and>
       expire_ms (node_at (expire_node (hd (heap s)) s) q) = expire_ms (node_at s q)"
    using same by (simp add: s'_def p_def)
qed


lemma expire_loop_fires_due:
  "heap_inv s \<Longrightarrow> heap s \<noteq> [] \<Longrightarrow> lands_later now s \<Longrightarrow> expire_loop fuel now s = Some s' \<Longrightarrow>
   \<exists>new. fired s' = fired s @ new \<and> distinct (map fst new) \<and>
     set (map fst new) = {p \<in> due now s. fb (node_at s p)} \<and>
     (\<forall>e \<in> set new. expire_ms (snd e) = expire_ms (node_at s (fst e))) \<and>
     heap_inv s' \<and> (heap s' = [] \<or> now < expire_ms (node_at s' (hd (heap s'))))"
proof (induction fuel arbitrary: s)
  case 0
  then show ?case by simp
next
  case (Suc n)
  define p where "p = hd (heap s)"
  show ?case
  proof (cases "now < expire_ms (node_at s p)")
    case True
    then have e: "s' = s" using Suc.prems(4) by (simp add: Let_def p_def)
    have "due now s = {}" using due_empty [OF Suc.prems(1,2)] True by (simp add: p_def)
    then show ?thesis using e Suc.prems(1) True by (intro exI [of _ "[]"]) (simp add: p_def)
  next
    case False
    define s1 where "s1 = expire_node p s"
    have du: "\<not> now < expire_ms (node_at s (hd (heap s)))" using False by (simp add: p_def)
    note st = sweep_step [OF Suc.prems(1,2,3) du, folded p_def, folded s1_def]
    have pin: "p \<in> set (heap s)" using Suc.prems(2) by (simp add: p_def)
    define new0 where "new0 = (if fb (node_at s p) then [(p, node_at s p)] else [])"
    have f1: "fired s1 = fired s @ new0"
      using expire_node_effect(2) [OF Suc.prems(1) pin] by (simp add: s1_def new0_def)
    have n0: "set (map fst new0) = {q \<in> {p}. fb (node_at s q)}" "distinct (map fst new0)"
      "\<forall>e \<in> set new0. expire_ms (snd e) = expire_ms (node_at s (fst e))"
      by (auto simp: new0_def)
    show ?thesis
    proof (cases "heap s1 = []")
      case True
      then have e: "s' = s1" using Suc.prems(4) False by (simp add: Let_def p_def s1_def)
      have "due now s1 = {}" using True by (simp add: due_def)
      then have "due now s = {p}" using st(3,4) by auto
      then show ?thesis using e f1 n0 st(1) True by (intro exI [of _ new0]) simp
    next
      case ne: False
      have r: "expire_loop n now s1 = Some s'"
        using Suc.prems(4) False ne by (simp add: Let_def p_def s1_def)
      from Suc.IH [OF st(1) ne st(2) r] obtain new1 where
        n1: "fired s' = fired s1 @ new1" "distinct (map fst new1)"
          "set (map fst new1) = {q \<in> due now s1. fb (node_at s1 q)}"
          "\<forall>e \<in> set new1. expire_ms (snd e) = expire_ms (node_at s1 (fst e))"
        and fin: "heap_inv s'" "heap s' = [] \<or> now < expire_ms (node_at s' (hd (heap s')))"
        by blast
      have s1set: "set (map fst new1) = {q \<in> due now s - {p}. fb (node_at s q)}"
        unfolding n1(3) st(3) using st(5) by auto
      have a: "fired s' = fired s @ (new0 @ new1)" using n1(1) f1 by simp
      have b: "distinct (map fst (new0 @ new1))"
        using n0(1,2) n1(2) s1set by (auto simp: new0_def)
      have c: "set (map fst (new0 @ new1)) = {q \<in> due now s. fb (node_at s q)}"
      proof -
        have "set (map fst (new0 @ new1)) = set (map fst new0) \<union> set (map fst new1)" by simp
        also have "\<dots> = {q \<in> {p}. fb (node_at s q)} \<union> {q \<in> due now s - {p}. fb (node_at s q)}"
          unfolding n0(1) s1set ..
        also have "\<dots> = {q \<in> due now s. fb (node_at s q)}" using st(4) by auto
        finally show ?thesis .
      qed
      have d: "\<forall>e \<in> set (new0 @ new1). expire_ms (snd e) = expire_ms (node_at s (fst e))"
      proof
        fix e assume "e \<in> set (new0 @ new1)"
        then consider "e \<in> set new0" | "e \<in> set new1" by auto
        then show "expire_ms (snd e) = expire_ms (node_at s (fst e))"
        proof cases
          case 1
          then show ?thesis using n0(3) by blast
        next
          case 2
          then have "fst e \<in> set (map fst new1)" by simp
          then have "fst e \<in> due now s" "fst e \<noteq> p" unfolding s1set by auto
          then show ?thesis using st(5) n1(4) 2 by simp
        qed
      qed
      show ?thesis using a b c d fin by blast
    qed
  qed
qed



lemma shiftUp_clock [simp]: "clock (shiftUp pos s) = clock s" "reads (shiftUp pos s) = reads s"
proof (induction pos s rule: shiftUp.induct)
  case (1 pos s)
  {
    case 1
    show ?case using "1.IH"(1) by (subst shiftUp.simps) (simp add: Let_def)
  next
    case 2
    show ?case using "1.IH"(2) by (subst shiftUp.simps) (simp add: Let_def)
  }
qed

lemma AddTimer_clock [simp]:
  "clock (snd (AddTimer timing d f l s)) = clock s"
  "reads (snd (AddTimer timing d f l s)) = Suc (reads s)"
  by (simp_all add: AddTimer_def addTimer_unfold push_node_def Let_def)

lemma init_clock [simp]: "clock (MinHeapTimer_init clk) = clk" "reads (MinHeapTimer_init clk) = 0"
  by (simp_all add: MinHeapTimer_init_def)

lemma timer_inv_engine_M: "timer_inv engine_M"
proof -
  have "run [Schedule 50 () True False, Schedule 10 () True False, Schedule 30 () True True]
      engine_A = Some engine_M"
    by (simp add: engine_M_def)
  then show ?thesis
    by (rule timer_inv_run [OF timer_inv_engine_A, rotated]) (simp add: count_engine_A)
qed

lemma engine_M_eval:
  "heap engine_M = [1, 0, 2] \<and> is_loop (node_at engine_M 2) \<and> \<not> is_loop (node_at engine_M 0) \<and>
   \<not> is_loop (node_at engine_M 1) \<and> timing_time_ms (node_at engine_M 2) = 30 \<and>
   map_option (map fst \<circ> fired) (ExpireTimer 4 engine_M) = Some [1, 2] \<and>
   map_option heap (ExpireTimer 4 engine_M) = Some [0, 2] \<and> fired engine_M = []"
  by code_simp

lemma engine_M_clock: "clock engine_M = clock_A" "reads engine_M = 3"
  by (simp_all add: engine_M_def engine_A_def)

lemma lands_later_after_read:
  assumes "\<forall>p \<in> set (heap s). is_loop (node_at s p) \<longrightarrow>
      (\<forall>k > reads s. now < clock s k + timing_time_ms (node_at s p))"
  shows "lands_later now (s\<lparr>reads := Suc (reads s)\<rparr>)"
  using assms by (simp add: lands_later_def node_at_def Suc_le_eq)






section \<open>The claims\<close>

text \<open>
  Claim C1, as the code has it (with the counter below \<open>2^31 - 1\<close>, so that the new
  identifier is not one in use). A repeating node that fires is taken out of the heap
  and of the lookup table by \<^verbatim>\<open>_removeNode\<close> and put back by \<^verbatim>\<open>_addTimer(node)\<close>, which
  draws a new identifier from \<^verbatim>\<open>Count()\<close>. After the firing the same node object is in the
  heap under the new identifier, the identifier it had before is no longer in the lookup
  table, and \<^verbatim>\<open>DelTimer\<close> finds the node by the new identifier only: with the old one
  it returns false and changes nothing but the mutex, which it leaves held.
\<close>

theorem repeat_gets_new_id:
  assumes "timer_inv s" and "heap s \<noteq> []" and "p = hd (heap s)" and "is_loop (node_at s p)"
    and "sint (count s) < 2147483647"
  shows "p \<in> set (heap (expire_node p s)) \<and>
    id_node (node_at (expire_node p s) p) = count s + 1 \<and>
    map_ids (expire_node p s) (count s + 1) = Some p \<and>
    map_ids (expire_node p s) (id_node (node_at s p)) = None \<and>
    DelTimer (id_node (node_at s p)) (expire_node p s) =
      (False, (expire_node p s)\<lparr>mtx_locked := True\<rparr>) \<and>
    fst (DelTimer (count s + 1) (expire_node p s)) = True"
proof -
  have p: "p \<in> set (heap s)" using assms(2,3) by simp
  have hi: "heap_inv s" using assms(1) by (simp add: timer_inv_def)
  obtain i s' where r: "addTimer_node p (removeNode p (call_fb p s)) = (i, s')"
    by (cases "addTimer_node p (removeNode p (call_fb p s))")
  have e: "expire_node p s = s'" using assms(4) r by (simp add: expire_node_loop)
  have inv': "timer_inv (call_fb p s)" "p \<in> set (heap (call_fb p s))"
    "sint (count (call_fb p s)) < 2147483647" "heap_inv (call_fb p s)"
    using assms(1,5) p hi by simp_all
  note a = timer_inv_readd [OF inv'(1-3) r]
  note su = readd_summary [OF inv'(4) inv'(2) r]
  have i: "i = count s + 1" using su(1) by simp
  have "p \<in> set (heap s')" using su(3) p by simp
  moreover have "id_node (node_at s' p) = count s + 1"
    using strip_some_fields(1) [OF su(5)] by simp
  moreover have m1: "map_ids s' (count s + 1) = Some p" using a(2) i by simp
  moreover have m2: "map_ids s' (id_node (node_at s p)) = None" using a(3) by simp
  moreover have "DelTimer (id_node (node_at s p)) s' = (False, s'\<lparr>mtx_locked := True\<rparr>)"
    using m2 by (rule DelTimer_unknown)
  moreover have "fst (DelTimer (count s + 1) s') = True" using m1 by (simp add: DelTimer_found)
  ultimately show ?thesis unfolding e by blast
qed

theorem repeat_gets_new_id_witness:
  "timer_inv engine_C \<and> heap engine_C \<noteq> [] \<and> 0 = hd (heap engine_C) \<and>
   is_loop (node_at engine_C 0) \<and> sint (count engine_C) < 2147483647 \<and>
   id_node (node_at engine_C 0) = 1 \<and>
   id_node (node_at (expire_node 0 engine_C) 0) = 2 \<and>
   map_ids (expire_node 0 engine_C) 2 = Some 0 \<and>
   map_ids (expire_node 0 engine_C) 1 = None \<and>
   DelTimer 1 (expire_node 0 engine_C) = (False, (expire_node 0 engine_C)\<lparr>mtx_locked := True\<rparr>)"
proof -
  have h: "heap engine_C \<noteq> []" "0 = hd (heap engine_C)" "is_loop (node_at engine_C 0)"
    "sint (count engine_C) < 2147483647"
    using engine_C_eval by simp_all
  show ?thesis
    using repeat_gets_new_id [OF timer_inv_engine_C h] timer_inv_engine_C h engine_C_eval by simp
qed

text \<open>
  The claim as stated fails: a repeating timer is scheduled and gets identifier 1; one
  sweep fires it; afterwards it is in the heap under identifier 2, identifier 1 is not
  in the lookup table, and \<^verbatim>\<open>DelTimer(1)\<close> returns false.
\<close>

theorem repeat_keeps_id_counterexample:
  "fst (AddTimer 20 () True True (MinHeapTimer_init clock_C)) = 1 \<and>
   map_option heap (ExpireTimer 2 engine_C) = Some [0] \<and>
   map_option (map fst \<circ> fired) (ExpireTimer 2 engine_C) = Some [0] \<and>
   id_node (node_at (the (ExpireTimer 2 engine_C)) 0) = 2 \<and>
   map_ids (the (ExpireTimer 2 engine_C)) 1 = None \<and>
   fst (DelTimer 1 (the (ExpireTimer 2 engine_C))) = False"
  by code_simp




text \<open>
  Claim C3. With one-shot timers only in the heap, a sequence of sweeps (and nothing
  else) calls the callbacks in non-decreasing order of \<^verbatim>\<open>expire_ms\<close>: the calls that the
  sweeps add to the trace are sorted. This holds whatever the clock readings of the sweeps
  are and also when expiration times coincide.
\<close>

theorem oneshot_fire_in_order:
  assumes "heap_inv s" and "all_oneshot s" and "run (map Sweep fuels) s = Some s'"
  shows "sorted (map (expire_ms \<circ> snd) (drop (length (fired s)) (fired s')))"
proof -
  have "order_inv (length (fired s)) s" using assms(1,2) by (simp add: order_inv_def all_oneshot_def)
  then have "order_inv (length (fired s)) s'" using assms(3) by (rule order_inv_sweeps)
  then show ?thesis by (simp add: order_inv_def)
qed

theorem oneshot_fire_in_order_witness:
  "heap_inv engine_S \<and> all_oneshot engine_S \<and>
   (\<exists>s'. run (map Sweep [4, 4, 4]) engine_S = Some s' \<and>
      map (expire_ms \<circ> snd) (fired s') = [10, 30, 50] \<and>
      sorted (map (expire_ms \<circ> snd) (drop (length (fired engine_S)) (fired s'))))"
proof -
  have h: "heap_inv engine_S" using timer_inv_engine_S by (simp add: timer_inv_def)
  have o: "all_oneshot engine_S" using engine_S_eval by (simp add: all_oneshot_def)
  obtain s' where r: "run (map Sweep [4, 4, 4]) engine_S = Some s'"
    and f: "map (expire_ms \<circ> snd) (fired s') = [10, 30, 50]"
    using engine_S_eval by (cases "run (map Sweep [4, 4, 4]) engine_S") auto
  have "\<exists>s'. run (map Sweep [4, 4, 4]) engine_S = Some s' \<and>
      map (expire_ms \<circ> snd) (fired s') = [10, 30, 50] \<and>
      sorted (map (expire_ms \<circ> snd) (drop (length (fired engine_S)) (fired s')))"
    using oneshot_fire_in_order [OF h o r] r f by (intro exI [of _ s']) simp
  then show ?thesis using h o by simp
qed

text \<open>
  Claim C4, as the code has it. Take a sweep that returns and in which every repeating
  node, whenever it is put back, gets an expiration later than the \<^verbatim>\<open>now\<close> the sweep read
  at its start. Then the sweep calls the callback of every node that was due at its
  start and has one, each exactly once, and of no other node; it returns with the heap
  empty or its root in the future; and with an empty heap or a root that is not due it
  fires nothing and leaves the engine as it is (but for the clock reading it took).
\<close>

theorem sweep_fires_due:
  assumes "heap_inv s" and "ExpireTimer fuel s = Some s'"
    and "reinserts_later s"
  shows "\<exists>new. fired s' = fired s @ new \<and> distinct (map fst new) \<and>
     set (map fst new) =
       {p \<in> set (heap s). expire_ms (node_at s p) \<le> clock s (reads s) \<and> fb (node_at s p)} \<and>
     (\<forall>e \<in> set new. expire_ms (snd e) = expire_ms (node_at s (fst e))) \<and>
     (heap s' = [] \<or> clock s (reads s) < expire_ms (node_at s' (hd (heap s')))) \<and>
     (heap s = [] \<or> clock s (reads s) < expire_ms (node_at s (hd (heap s))) \<longrightarrow>
        new = [] \<and> (s' = s \<or> s' = s\<lparr>reads := Suc (reads s)\<rparr>))"
proof (cases "heap s = []")
  case True
  then have "s' = s" using assms(2) by (simp add: ExpireTimer_def)
  then show ?thesis using True by (intro exI [of _ "[]"]) simp
next
  case False
  define now where "now = clock s (reads s)"
  define t where "t = s\<lparr>reads := Suc (reads s)\<rparr>"
  have r: "expire_loop fuel now t = Some s'"
    using assms(2) False by (simp add: ExpireTimer_def CurrentTime_ms_def t_def now_def)
  have ht: "heap_inv t" "heap t \<noteq> []" using assms(1) False by (simp_all add: t_def)
  have ll: "lands_later now t" unfolding t_def now_def
    by (rule lands_later_after_read) (use assms(3) in \<open>simp add: reinserts_later_def\<close>)
  have na: "node_at t = node_at s" by (rule ext) (simp add: node_at_def t_def)
  have dt: "{p \<in> due now t. fb (node_at t p)} =
      {p \<in> set (heap s). expire_ms (node_at s p) \<le> now \<and> fb (node_at s p)}"
    unfolding due_def na by (simp add: t_def)
  from expire_loop_fires_due [OF ht ll r] obtain new where
    n: "fired s' = fired t @ new" "distinct (map fst new)"
      "set (map fst new) = {p \<in> due now t. fb (node_at t p)}"
      "\<forall>e \<in> set new. expire_ms (snd e) = expire_ms (node_at t (fst e))"
      "heap s' = [] \<or> now < expire_ms (node_at s' (hd (heap s')))"
    by blast
  have idle: "new = [] \<and> s' = t" if "now < expire_ms (node_at s (hd (heap s)))"
  proof -
    have "now < expire_ms (node_at t (hd (heap t)))" using that by (simp add: na) (simp add: t_def)
    then have "expire_loop fuel now t = Some t"
      using r by (cases fuel) (simp_all add: Let_def)
    then have "s' = t" using r by simp
    then show ?thesis using n(1) by simp
  qed
  have "fired s' = fired s @ new" using n(1) by (simp add: t_def)
  moreover have "set (map fst new) =
       {p \<in> set (heap s). expire_ms (node_at s p) \<le> now \<and> fb (node_at s p)}"
    using n(3) dt by simp
  moreover have "\<forall>e \<in> set new. expire_ms (snd e) = expire_ms (node_at s (fst e))"
    using n(4) na by simp
  moreover have "heap s = [] \<or> now < expire_ms (node_at s (hd (heap s))) \<longrightarrow>
        new = [] \<and> (s' = s \<or> s' = s\<lparr>reads := Suc (reads s)\<rparr>)"
    using idle False by (simp add: t_def)
  ultimately show ?thesis using n(2,5) unfolding now_def by blast
qed

theorem sweep_fires_due_witness:
  "heap_inv engine_M \<and> reinserts_later engine_M \<and>
   (\<exists>s' new. ExpireTimer 4 engine_M = Some s' \<and> fired s' = fired engine_M @ new \<and>
      map fst new = [1, 2] \<and> distinct (map fst new) \<and>
      set (map fst new) = {p \<in> set (heap engine_M).
         expire_ms (node_at engine_M p) \<le> clock engine_M (reads engine_M) \<and> fb (node_at engine_M p)})"
proof -
  have h: "heap_inv engine_M" using timer_inv_engine_M by (simp add: timer_inv_def)
  have l: "reinserts_later engine_M"
    using engine_M_eval by (simp add: reinserts_later_def engine_M_clock clock_A_def)
  obtain s' where r: "ExpireTimer 4 engine_M = Some s'" and f: "map fst (fired s') = [1, 2]"
    using engine_M_eval by (cases "ExpireTimer 4 engine_M") auto
  from sweep_fires_due [OF h r l] obtain new where
    n: "fired s' = fired engine_M @ new" "distinct (map fst new)"
      "set (map fst new) = {p \<in> set (heap engine_M).
         expire_ms (node_at engine_M p) \<le> clock engine_M (reads engine_M) \<and> fb (node_at engine_M p)}"
    by blast
  have m: "map fst new = [1, 2]" using n(1) f engine_M_eval by simp
  have "ExpireTimer 4 engine_M = Some s' \<and> fired s' = fired engine_M @ new \<and>
      map fst new = [1, 2] \<and> distinct (map fst new) \<and>
      set (map fst new) = {p \<in> set (heap engine_M).
         expire_ms (node_at engine_M p) \<le> clock engine_M (reads engine_M) \<and> fb (node_at engine_M p)}"
    using r n m by (intro conjI)
  then have "\<exists>s' new. ExpireTimer 4 engine_M = Some s' \<and> fired s' = fired engine_M @ new \<and>
      map fst new = [1, 2] \<and> distinct (map fst new) \<and>
      set (map fst new) = {p \<in> set (heap engine_M).
         expire_ms (node_at engine_M p) \<le> clock engine_M (reads engine_M) \<and> fb (node_at engine_M p)}"
    by (intro exI)
  then show ?thesis using h l by (intro conjI)
qed

text \<open>
  The claim as stated fails: a repeating timer of interval 0 is due at \<^verbatim>\<open>now = 10\<close>; the
  clock still reads 10 when the node is put back the first time and 11 the second time.
  The sweep returns after calling the callback of this one node twice.
\<close>

theorem sweep_fires_twice_counterexample:
  "heap engine_F = [0] \<and> expire_ms (node_at engine_F 0) = 10 \<and>
   clock engine_F (reads engine_F) = 10 \<and>
   map_option (map fst \<circ> fired) (ExpireTimer 3 engine_F) = Some [0, 0] \<and>
   \<not> distinct (the (map_option (map fst \<circ> fired) (ExpireTimer 3 engine_F)))"
  by code_simp

text \<open>
  Claim C5, as the code has it. \<^verbatim>\<open>_addTimer(node)\<close> does not use the \<^verbatim>\<open>now\<close> that
  \<^verbatim>\<open>ExpireTimer\<close> read at its start: it reads the clock again. The new expiration of a
  repeating node that fires is that reading plus the period (in 64-bit arithmetic); it
  is the sweep's \<^verbatim>\<open>now\<close> plus the period when the clock has not moved in between. The
  period itself and the repeat flag are unchanged.
\<close>

theorem repeat_expiration:
  assumes "heap_inv s" and "p \<in> set (heap s)" and "is_loop (node_at s p)"
  shows "expire_ms (node_at (expire_node p s) p) = clock s (reads s) + timing_time_ms (node_at s p) \<and>
    (clock s (reads s) = now \<longrightarrow>
       expire_ms (node_at (expire_node p s) p) = now + timing_time_ms (node_at s p)) \<and>
    timing_time_ms (node_at (expire_node p s) p) = timing_time_ms (node_at s p) \<and>
    is_loop (node_at (expire_node p s) p) \<and> reads (expire_node p s) = Suc (reads s)"
proof -
  obtain i s' where r: "addTimer_node p (removeNode p (call_fb p s)) = (i, s')"
    by (cases "addTimer_node p (removeNode p (call_fb p s))")
  have e: "expire_node p s = s'" using assms(3) r by (simp add: expire_node_loop)
  have inv': "heap_inv (call_fb p s)" "p \<in> set (heap (call_fb p s))" using assms by simp_all
  note su = readd_summary [OF inv' r]
  note f = strip_some_fields [OF su(5)]
  have "expire_ms (node_at s' p) = clock s (reads s) + timing_time_ms (node_at s p)"
    using f(2) by simp
  moreover have "timing_time_ms (node_at s' p) = timing_time_ms (node_at s p)"
    using f(3) by (simp add: strip_idx_def)
  moreover have "is_loop (node_at s' p)" using f(4) assms(3) by (simp add: strip_idx_def)
  moreover have "reads s' = Suc (reads s)" using su(10) by simp
  ultimately show ?thesis unfolding e by simp
qed

theorem repeat_expiration_witness:
  "heap_inv engine_C \<and> 0 \<in> set (heap engine_C) \<and> is_loop (node_at engine_C 0) \<and>
   clock engine_C (reads engine_C) = 20 \<and> timing_time_ms (node_at engine_C 0) = 20 \<and>
   expire_ms (node_at (expire_node 0 engine_C) 0) = 40"
proof -
  have h: "heap_inv engine_C" "0 \<in> set (heap engine_C)" "is_loop (node_at engine_C 0)"
    using engine_C_eval timer_inv_engine_C by (simp_all add: timer_inv_def)
  show ?thesis using repeat_expiration [OF h, of 20] h engine_C_eval by simp
qed

text \<open>
  The claim as stated fails: the timer has period 20 and the sweep reads \<^verbatim>\<open>now = 20\<close>;
  the clock reads 21 when the node is put back, and the new expiration is 41, not
  \<open>20 + 20\<close>.
\<close>

theorem repeat_expiration_counterexample:
  "clock engine_D (reads engine_D) = 20 \<and> timing_time_ms (node_at engine_D 0) = 20 \<and>
   map_option heap (ExpireTimer 2 engine_D) = Some [0] \<and>
   map_option (map fst \<circ> fired) (ExpireTimer 2 engine_D) = Some [0] \<and>
   expire_ms (node_at (the (ExpireTimer 2 engine_D)) 0) = 41 \<and>
   expire_ms (node_at (the (ExpireTimer 2 engine_D)) 0) \<noteq> 20 + 20"
  by code_simp



text \<open>
  Claim C7. For an identifier that is not in the lookup table, \<^verbatim>\<open>DelTimer\<close> returns
  false and leaves the heap and the lookup table unchanged, and with them every other
  field of the engine but one: the mutex \<^verbatim>\<open>mtx_\<close>, which \<^verbatim>\<open>try_lock\<close> has taken and the
  early return does not release, is held after the call. That is the case of an
  identifier cancelled before (a second cancel returns false and changes neither heap
  nor table) and of the identifier of a one-shot node that has fired.
\<close>

theorem DelTimer_absent:
  "(map_ids s i = None \<longrightarrow>
      fst (DelTimer i s) = False \<and> heap (snd (DelTimer i s)) = heap s \<and>
      map_ids (snd (DelTimer i s)) = map_ids s \<and>
      DelTimer i s = (False, s\<lparr>mtx_locked := True\<rparr>)) \<and>
   (timer_inv s \<longrightarrow>
      fst (DelTimer i (snd (DelTimer i s))) = False \<and>
      heap (snd (DelTimer i (snd (DelTimer i s)))) = heap (snd (DelTimer i s)) \<and>
      map_ids (snd (DelTimer i (snd (DelTimer i s)))) = map_ids (snd (DelTimer i s)) \<and>
      DelTimer i (snd (DelTimer i s)) = (False, (snd (DelTimer i s))\<lparr>mtx_locked := True\<rparr>)) \<and>
   (timer_inv s \<and> p \<in> set (heap s) \<and> \<not> is_loop (node_at s p) \<and> i = id_node (node_at s p) \<longrightarrow>
      fst (DelTimer i (expire_node p s)) = False \<and>
      heap (snd (DelTimer i (expire_node p s))) = heap (expire_node p s) \<and>
      map_ids (snd (DelTimer i (expire_node p s))) = map_ids (expire_node p s) \<and>
      DelTimer i (expire_node p s) = (False, (expire_node p s)\<lparr>mtx_locked := True\<rparr>))"
proof -
  have a: "fst (DelTimer i s) = False \<and> heap (snd (DelTimer i s)) = heap s \<and>
      map_ids (snd (DelTimer i s)) = map_ids s \<and>
      DelTimer i s = (False, s\<lparr>mtx_locked := True\<rparr>)"
    if "map_ids s i = None" for s :: "'a MinHeapTimer"
    using DelTimer_unknown [OF that] by simp
  have b: "map_ids (snd (DelTimer i s)) i = None" if inv: "timer_inv s"
  proof (cases "map_ids s i")
    case None
    then show ?thesis by (simp add: DelTimer_unknown)
  next
    case (Some q)
    then have q: "q \<in> set (heap s)" and iq: "id_node (node_at s q) = i"
      using inv by (simp_all add: timer_inv_def map_inv_def)
    have "map_ids (delNode q s) i = None"
      using delNode_summary(5) [of s q] inv q iq by (simp add: timer_inv_def)
    then show ?thesis using Some by (simp add: DelTimer_found)
  qed
  have c: "map_ids (expire_node p s) i = None"
    if h: "timer_inv s \<and> p \<in> set (heap s) \<and> \<not> is_loop (node_at s p) \<and> i = id_node (node_at s p)"
  proof -
    have "map_ids (delNode p (call_fb p s)) = (map_ids (call_fb p s))(id_node (node_at (call_fb p s) p) := None)"
      by (rule delNode_summary(5)) (use h in \<open>simp_all add: timer_inv_def\<close>)
    then show ?thesis using h by (simp add: expire_node_oneshot)
  qed
  show ?thesis
  proof (intro conjI impI)
    assume "map_ids s i = None"
    from a [OF this]
    show "fst (DelTimer i s) = False" "heap (snd (DelTimer i s)) = heap s"
      "map_ids (snd (DelTimer i s)) = map_ids s" "DelTimer i s = (False, s\<lparr>mtx_locked := True\<rparr>)"
      by blast+
  next
    assume "timer_inv s"
    from a [OF b [OF this]]
    show "fst (DelTimer i (snd (DelTimer i s))) = False"
      "heap (snd (DelTimer i (snd (DelTimer i s)))) = heap (snd (DelTimer i s))"
      "map_ids (snd (DelTimer i (snd (DelTimer i s)))) = map_ids (snd (DelTimer i s))"
      "DelTimer i (snd (DelTimer i s)) = (False, (snd (DelTimer i s))\<lparr>mtx_locked := True\<rparr>)"
      by blast+
  next
    assume "timer_inv s \<and> p \<in> set (heap s) \<and> \<not> is_loop (node_at s p) \<and> i = id_node (node_at s p)"
    from a [OF c [OF this]]
    show "fst (DelTimer i (expire_node p s)) = False"
      "heap (snd (DelTimer i (expire_node p s))) = heap (expire_node p s)"
      "map_ids (snd (DelTimer i (expire_node p s))) = map_ids (expire_node p s)"
      "DelTimer i (expire_node p s) = (False, (expire_node p s)\<lparr>mtx_locked := True\<rparr>)"
      by blast+
  qed
qed

theorem DelTimer_absent_witness:
  "map_ids engine_B 7 = None \<and> fst (DelTimer 7 engine_B) = False \<and>
   heap (snd (DelTimer 7 engine_B)) = [1, 0] \<and> mtx_locked (snd (DelTimer 7 engine_B)) \<and>
   timer_inv engine_B \<and> map_ids engine_B 1 = Some 0 \<and>
   fst (DelTimer 1 (snd (DelTimer 1 engine_B))) = False \<and>
   heap (snd (DelTimer 1 (snd (DelTimer 1 engine_B)))) = heap (snd (DelTimer 1 engine_B)) \<and>
   1 \<in> set (heap engine_B) \<and> \<not> is_loop (node_at engine_B 1) \<and> 2 = id_node (node_at engine_B 1) \<and>
   fst (DelTimer 2 (expire_node 1 engine_B)) = False \<and>
   map_ids (snd (DelTimer 2 (expire_node 1 engine_B))) = map_ids (expire_node 1 engine_B)"
  using DelTimer_absent [of engine_B 7 1] DelTimer_absent [of engine_B 1 1]
    DelTimer_absent [of engine_B 2 1] engine_B_ids timer_inv_engine_B
  by simp

text \<open>
  Claim C8, as the code has it. One pass of the driver's loop runs \<^verbatim>\<open>ExpireTimer\<close> and
  then hands \<^verbatim>\<open>min_timing_time_ms / 10\<close> milliseconds to \<^verbatim>\<open>sleep_for\<close>, with no lower
  bound: the quotient is 0 when the tracked minimum is below 10. The tracked minimum,
  once it is not negative, never grows: a Schedule call replaces it by the interval
  asked for when that is smaller and leaves it alone otherwise.
\<close>

theorem loop_sleep_and_min:
  "(loop_body fuel L = Some (ms, L') \<longrightarrow>
      ExpireTimer fuel (engine L) = Some (engine L') \<and>
      ms = sint (min_timing_time_ms L) sdiv 10 \<and>
      min_timing_time_ms L' = min_timing_time_ms L) \<and>
   (0 \<le> sint (min_timing_time_ms L) \<and> addTimer_Loop timing d f l L = (i, L2) \<longrightarrow>
      (i, engine L2) = addTimer timing d f l (engine L) \<and>
      min_timing_time_ms L2 =
        (if timing < scast (min_timing_time_ms L) then ucast timing else min_timing_time_ms L) \<and>
      0 \<le> sint (min_timing_time_ms L2) \<and>
      sint (min_timing_time_ms L2) \<le> sint (min_timing_time_ms L) \<and>
      (sint (min_timing_time_ms L2) < sint (min_timing_time_ms L) \<longrightarrow>
         sint (min_timing_time_ms L2) = uint timing))"
proof (intro conjI impI)
  assume "loop_body fuel L = Some (ms, L')"
  then show "ExpireTimer fuel (engine L) = Some (engine L')"
    "ms = sint (min_timing_time_ms L) sdiv 10" "min_timing_time_ms L' = min_timing_time_ms L"
    by (auto simp: loop_body_def unique_lock_def sleep_ms_def split: option.splits if_splits)
next
  assume h: "0 \<le> sint (min_timing_time_ms L) \<and> addTimer_Loop timing d f l L = (i, L2)"
  define L1 where "L1 = (if (scast (min_timing_time_ms L) :: 64 word) > timing
                then L\<lparr>min_timing_time_ms := ucast timing\<rparr> else L)"
  have e: "engine L1 = engine L" by (simp add: L1_def)
  have r: "(i, L2) = (fst (addTimer timing d f l (engine L)),
                      L1\<lparr>engine := snd (addTimer timing d f l (engine L))\<rparr>)"
    using h by (simp add: addTimer_Loop_def L1_def [symmetric] Let_def split_beta e)
  show "(i, engine L2) = addTimer timing d f l (engine L)" using r by simp
  have m2: "min_timing_time_ms L2 = min_timing_time_ms L1" using r by simp
  show m: "min_timing_time_ms L2 =
        (if timing < scast (min_timing_time_ms L) then ucast timing else min_timing_time_ms L)"
    unfolding m2 by (simp add: L1_def)
  have hm: "0 \<le> sint (min_timing_time_ms L)" using h by simp
  show "0 \<le> sint (min_timing_time_ms L2)"
    unfolding m using hm min_shrinks(1) [OF hm, of timing] by simp
  show "sint (min_timing_time_ms L2) \<le> sint (min_timing_time_ms L)"
    unfolding m using min_shrinks [OF hm, of timing] by (auto simp: less_imp_le)
  show "sint (min_timing_time_ms L2) = uint timing"
    if "sint (min_timing_time_ms L2) < sint (min_timing_time_ms L)"
    using that unfolding m using min_shrinks(1) [OF hm, of timing] by (simp split: if_splits)
qed

theorem loop_sleep_and_min_witness:
  "(\<exists>L'. loop_body 1 driver_A = Some (100, L') \<and> ExpireTimer 1 (engine driver_A) = Some (engine L')) \<and>
   0 \<le> sint (min_timing_time_ms driver_A) \<and>
   sint (min_timing_time_ms (snd (addTimer_Loop 5 () True False driver_A))) = 5 \<and>
   sint (min_timing_time_ms (snd (addTimer_Loop 5 () True False driver_A)))
     \<le> sint (min_timing_time_ms driver_A)"
proof -
  obtain L' where b: "loop_body 1 driver_A = Some (100, L')"
    using driver_A_eval by (cases "loop_body 1 driver_A") auto
  have m: "0 \<le> sint (min_timing_time_ms driver_A)" using driver_A_eval by simp
  have a: "addTimer_Loop 5 () True False driver_A =
    (fst (addTimer_Loop 5 () True False driver_A), snd (addTimer_Loop 5 () True False driver_A))"
    by simp
  note t = loop_sleep_and_min [of 1 driver_A 100 L' 5 "()" True False
      "fst (addTimer_Loop 5 () True False driver_A)" "snd (addTimer_Loop 5 () True False driver_A)"]
  have "ExpireTimer 1 (engine driver_A) = Some (engine L')" using t b by blast
  moreover have "sint (min_timing_time_ms (snd (addTimer_Loop 5 () True False driver_A)))
     \<le> sint (min_timing_time_ms driver_A)" using t m a by blast
  ultimately show ?thesis using b m driver_A_eval by blast
qed

text \<open>
  The claim as stated fails: after a Schedule with an interval of 5 ms the loop sleeps
  for \<open>5 / 10 = 0\<close> milliseconds, less than one time unit.
\<close>

theorem sleep_below_one_counterexample:
  "sleep_ms (snd (addTimer_Loop 5 () True False driver_A)) = 0 \<and>
   \<not> 1 \<le> sleep_ms (snd (addTimer_Loop 5 () True False driver_A))"
  by code_simp

text \<open>
  Claim C9, as the code has it. \<^verbatim>\<open>_count\<close> is a static \<^verbatim>\<open>int\<close>, 32 bits wide, and
  \<^verbatim>\<open>Count()\<close> is \<^verbatim>\<open>++_count\<close>. Every \<^verbatim>\<open>AddTimer\<close> returns the counter plus one, and
  \<^verbatim>\<open>DelTimer\<close> never touches the counter. As long as the counter stays below
  \<open>2^31 - 1\<close>, of any two \<^verbatim>\<open>AddTimer\<close> calls, whatever calls lie between them, the later
  one returns the greater identifier, and that identifier is not in the lookup table
  when it is handed out.
\<close>

theorem AddTimer_ids_increase:
  assumes "timer_inv s"
    and "sint (count s) + int (sum_list (map mints ops)) + 2 \<le> 2147483647"
    and "AddTimer t1 d1 f1 l1 s = (i1, s1)" and "run ops s1 = Some s2"
    and "AddTimer t2 d2 f2 l2 s2 = (i2, s3)"
  shows "i1 = count s + 1 \<and> i2 = count s2 + 1 \<and> sint i1 < sint i2 \<and> map_ids s2 i2 = None \<and>
    count (snd (DelTimer j s)) = count s"
proof -
  have c: "sint (count s) < 2147483647" using assms(2) by simp
  have r1: "addTimer t1 d1 f1 l1 s = (i1, s1)" using assms(3) by (simp add: AddTimer_def)
  note a1 = timer_inv_addTimer [OF assms(1) c r1]
  have hi: "heap_inv s" "alloc_inv s" using assms(1) by (simp_all add: timer_inv_def)
  have i1: "i1 = count s + 1" and c1: "count s1 = count s + 1"
    using addTimer_summary(1,8) [OF hi r1] by simp_all
  have b1: "sint (count s1) + int (sum_list (map mints ops)) \<le> 2147483647"
    using assms(2) a1(4) i1 c1 by simp
  have inv2: "timer_inv s2" by (rule timer_inv_run [OF a1(1) b1 assms(4)])
  note cb = run_count_bounds [OF a1(1) b1 assms(4)]
  have c2: "sint (count s2) < 2147483647" using cb assms(2) a1(4) i1 c1 by simp
  have r2: "addTimer t2 d2 f2 l2 s2 = (i2, s3)" using assms(5) by (simp add: AddTimer_def)
  note a2 = timer_inv_addTimer [OF inv2 c2 r2]
  have hi2: "heap_inv s2" "alloc_inv s2" using inv2 by (simp_all add: timer_inv_def)
  have i2: "i2 = count s2 + 1" using addTimer_summary(1) [OF hi2 r2] .
  have "sint i1 < sint i2" using a1(4) a2(4) cb i1 c1 by simp
  then show ?thesis using i1 i2 a2(2) timer_inv_DelTimer(2) [OF assms(1)] by simp
qed

theorem AddTimer_ids_increase_witness:
  "timer_inv engine_A \<and>
   sint (count engine_A) + int (sum_list (map mints [Cancel 1 :: unit timer_op])) + 2 \<le> 2147483647 \<and>
   fst (AddTimer 50 () True False engine_A) = 1 \<and>
   fst (AddTimer 10 () True False (snd (DelTimer 1 (snd (AddTimer 50 () True False engine_A))))) = 2 \<and>
   sint (fst (AddTimer 50 () True False engine_A))
     < sint (fst (AddTimer 10 () True False (snd (DelTimer 1 (snd (AddTimer 50 () True False engine_A))))))"
proof -
  define s1 where "s1 = snd (AddTimer 50 () True False engine_A)"
  define s2 where "s2 = snd (DelTimer 1 s1)"
  have b: "sint (count engine_A) + int (sum_list (map mints [Cancel 1 :: unit timer_op])) + 2 \<le> 2147483647"
    by (simp add: count_engine_A)
  have r: "run [Cancel 1] s1 = Some s2" by (simp add: s2_def)
  have a1: "AddTimer 50 () True False engine_A = (fst (AddTimer 50 () True False engine_A), s1)"
    by (simp add: s1_def)
  have a2: "AddTimer 10 () True False s2 = (fst (AddTimer 10 () True False s2), snd (AddTimer 10 () True False s2))"
    by simp
  have "sint (fst (AddTimer 50 () True False engine_A)) < sint (fst (AddTimer 10 () True False s2))"
    using AddTimer_ids_increase [OF timer_inv_engine_A b a1 r a2] by blast
  then show ?thesis using engine_A_ids timer_inv_engine_A b unfolding s2_def s1_def by blast
qed

text \<open>
  The claim as stated fails: the counter is not 64 bits wide. At \<open>2^31 - 1\<close> the next
  identifier wraps to \<open>- 2^31\<close>, which is smaller than every identifier handed out before.
\<close>

theorem AddTimer_id_wraps_counterexample:
  "sint (count engine_max) = 2147483647 \<and>
   sint (fst (AddTimer 10 () True False engine_max)) = - 2147483648 \<and>
   \<not> sint (count engine_max) < sint (fst (AddTimer 10 () True False engine_max))"
  by (simp add: engine_max_def AddTimer_def addTimer_unfold)




end
